theory Spec2Isabelle
  imports Main "HOL-Library.Sublist"
begin

section \<open>Messages, State and partial updates\<close>

text \<open>
  A message carries the name of its class (the role tag) and its content text.
  Characters are code points below 256.
\<close>

datatype role = HumanMessage | AIMessage | SystemMessage

record message =
  role :: role
  content :: string

text \<open>
  The State is a dictionary.  \<open>MessagesState\<close> has the key \<open>messages\<close> only; the
  handoff graph's \<open>AgentState\<close> is read by \<open>route_next\<close> through
  \<open>state.get("task_complete", False)\<close> and \<open>state.get("next_agent", "finish")\<close>, so both
  control fields may be absent.
\<close>

record state =
  messages :: "message list"
  next_agent :: "string option"
  task_complete :: "bool option"

text \<open>A node returns a partial update: the keys it sets, the others absent.\<close>

record update =
  u_messages :: "message list option"
  u_next_agent :: "string option"
  u_task_complete :: "bool option"

definition END :: string where
  "END = ''__end__''"

definition START :: string where
  "START = ''__start__''"

section \<open>The language-model collaborator\<close>

text \<open>
  \<open>self.llm.invoke([...])\<close> is a call to an external service.  Its answer depends on
  a hidden world \<open>'w\<close> that the call may change, and the call may fail: the model threads
  the world through every call and returns \<open>None\<close> for a failed call.

  The argument list holds messages.  A specialist's \<open>process\<close> is registered as the node
  itself, so its parameter \<open>messages\<close> is bound to the State dictionary, and
  \<open>*messages\<close> unpacks that dictionary's keys: the list then holds key names.
  (The parameter is written \<open>st\<close> below, \<open>messages\<close> being the State's field.)
\<close>

datatype llm_input = Msg message | Key string

type_synonym 'w llm = "llm_input list \<Rightarrow> 'w \<Rightarrow> message option \<times> 'w"

record 'w agent =
  llm :: "'w llm"
  system_prompt :: string

type_synonym 'w node = "state \<Rightarrow> 'w \<Rightarrow> update option \<times> 'w"

type_synonym 'w router = "state \<Rightarrow> 'w \<Rightarrow> string option \<times> 'w"

definition state_keys :: "state \<Rightarrow> string list" where
  "state_keys s =
     ''messages''
       # (case next_agent s of None \<Rightarrow> [] | Some _ \<Rightarrow> [''next_agent''])
       @ (case task_complete s of None \<Rightarrow> [] | Some _ \<Rightarrow> [''task_complete''])"

definition ResearchAgent_process :: "'w agent \<Rightarrow> 'w node" where
  "ResearchAgent_process self st w =
     (case llm self (Msg \<lparr>role = SystemMessage, content = system_prompt self\<rparr>
                       # map Key (state_keys st)) w of
        (None, w') \<Rightarrow> (None, w')
      | (Some response, w') \<Rightarrow>
          (Some \<lparr>u_messages = Some [response], u_next_agent = None,
                 u_task_complete = None\<rparr>, w'))"

definition WriterAgent_process :: "'w agent \<Rightarrow> 'w node" where
  "WriterAgent_process self st w =
     (case llm self (Msg \<lparr>role = SystemMessage, content = system_prompt self\<rparr>
                       # map Key (state_keys st)) w of
        (None, w') \<Rightarrow> (None, w')
      | (Some response, w') \<Rightarrow>
          (Some \<lparr>u_messages = Some [response], u_next_agent = None,
                 u_task_complete = None\<rparr>, w'))"

definition ReviewerAgent_process :: "'w agent \<Rightarrow> 'w node" where
  "ReviewerAgent_process self st w =
     (case llm self (Msg \<lparr>role = SystemMessage, content = system_prompt self\<rparr>
                       # map Key (state_keys st)) w of
        (None, w') \<Rightarrow> (None, w')
      | (Some response, w') \<Rightarrow>
          (Some \<lparr>u_messages = Some [response], u_next_agent = None,
                 u_task_complete = None\<rparr>, w'))"

section \<open>Strings: \<open>strip\<close>, \<open>lower\<close> and \<open>in\<close>\<close>

text \<open>
  \<open>str.strip()\<close> removes leading and trailing whitespace; below 256 the whitespace
  code points are 9 to 13, 28 to 32, 133 and 160.
\<close>

definition is_space :: "char \<Rightarrow> bool" where
  "is_space c =
     (let n = of_char c :: nat
      in (9 \<le> n \<and> n \<le> 13) \<or> (28 \<le> n \<and> n \<le> 32) \<or> n = 133 \<or> n = 160)"

definition strip :: "string \<Rightarrow> string" where
  "strip s = rev (dropWhile is_space (rev (dropWhile is_space s)))"

text \<open>
  \<open>str.lower()\<close>: below 256 the upper-case letters are 65 to 90 and 192 to 222 without
  215, each 32 below its lower-case letter.
\<close>

definition lower_char :: "char \<Rightarrow> char" where
  "lower_char c =
     (let n = of_char c :: nat
      in if (65 \<le> n \<and> n \<le> 90) \<or> (192 \<le> n \<and> n \<le> 222 \<and> n \<noteq> 215)
         then char_of (n + 32) else c)"

definition lower :: "string \<Rightarrow> string" where
  "lower s = map lower_char s"

text \<open>\<open>sub in s\<close> on strings: \<open>sub\<close> occurs in \<open>s\<close> as a contiguous run.\<close>

fun starts_with :: "string \<Rightarrow> string \<Rightarrow> bool" where
  "starts_with [] s = True"
| "starts_with (c # sub) [] = False"
| "starts_with (c # sub) (d # s) = (c = d \<and> starts_with sub s)"

fun str_in :: "string \<Rightarrow> string \<Rightarrow> bool" where
  "str_in sub [] = (sub = [])"
| "str_in sub (d # s) = (starts_with sub (d # s) \<or> str_in sub s)"

section \<open>The supervisor's classifier (\<open>SupervisorAgent.route\<close>)\<close>

text \<open>The source's local variable \<open>next_agent\<close> is written \<open>nxt\<close>.\<close>

definition SupervisorAgent_route :: "'w agent \<Rightarrow> message list \<Rightarrow> 'w \<Rightarrow> string option \<times> 'w" where
  "SupervisorAgent_route self msgs w =
     (case llm self (Msg \<lparr>role = SystemMessage, content = system_prompt self\<rparr>
                       # map Msg msgs) w of
        (None, w') \<Rightarrow> (None, w')
      | (Some response, w') \<Rightarrow>
          (let nxt = lower (strip (content response))
           in (Some (if str_in ''finish'' nxt then ''finish''
                     else if str_in ''researcher'' nxt then ''researcher''
                     else if str_in ''writer'' nxt then ''writer''
                     else if str_in ''reviewer'' nxt then ''reviewer''
                     else ''finish''), w')))"

definition supervisor_router :: "'w agent \<Rightarrow> 'w router" where
  "supervisor_router supervisor s w =
     (case SupervisorAgent_route supervisor (messages s) w of
        (None, w') \<Rightarrow> (None, w')
      | (Some nxt, w') \<Rightarrow>
          (if nxt = ''finish'' then (Some END, w') else (Some nxt, w')))"

section \<open>The handoff router (\<open>route_next\<close>)\<close>

definition route_next :: "state \<Rightarrow> string" where
  "route_next s =
     (if (case task_complete s of None \<Rightarrow> False | Some b \<Rightarrow> b) then END
      else
        (let nxt = (case next_agent s of None \<Rightarrow> ''finish'' | Some a \<Rightarrow> a)
         in if nxt \<in> set [''technical'', ''creative'', ''data''] then nxt
            else END))"

section \<open>The graph builder and the execution engine\<close>

datatype error =
  ConfigurationError | RoutingError | ExecutionLimitExceeded | CollaboratorFailure

text \<open>
  Modelled from the spec: the state merge of section 4.4, which the source takes from
  its graph library.  A message-sequence field is concatenated, the update's messages
  after the existing ones; a scalar control field is overwritten when the update has
  it and left untouched when it has not.
\<close>

definition merge :: "state \<Rightarrow> update \<Rightarrow> state" where
  "merge s u =
     \<lparr>messages = messages s @ (case u_messages u of None \<Rightarrow> [] | Some ms \<Rightarrow> ms),
      next_agent = (case u_next_agent u of None \<Rightarrow> next_agent s | Some a \<Rightarrow> Some a),
      task_complete =
        (case u_task_complete u of None \<Rightarrow> task_complete s | Some b \<Rightarrow> Some b)\<rparr>"

text \<open>
  Modelled from the spec: the builder of section 4.1 (\<open>StateGraph\<close>, \<open>add_node\<close>,
  \<open>add_edge\<close>, \<open>add_conditional_edges\<close> and \<open>compile\<close> of the graph library).  The
  builder only records what it is given, in the order of the calls.
\<close>

record 'w builder =
  nodes :: "(string \<times> 'w node) list"
  edges :: "(string \<times> string) list"
  branches :: "(string \<times> 'w router) list"

definition StateGraph :: "'w builder" where
  "StateGraph = \<lparr>nodes = [], edges = [], branches = []\<rparr>"

definition add_node :: "string \<Rightarrow> 'w node \<Rightarrow> 'w builder \<Rightarrow> 'w builder" where
  "add_node ident process b = b\<lparr>nodes := nodes b @ [(ident, process)]\<rparr>"

definition add_edge :: "string \<Rightarrow> string \<Rightarrow> 'w builder \<Rightarrow> 'w builder" where
  "add_edge source target b = b\<lparr>edges := edges b @ [(source, target)]\<rparr>"

definition add_conditional_edges :: "string \<Rightarrow> 'w router \<Rightarrow> 'w builder \<Rightarrow> 'w builder" where
  "add_conditional_edges source router b = b\<lparr>branches := branches b @ [(source, router)]\<rparr>"

record 'w graph =
  node_registry :: "(string \<times> 'w node) list"
  static_edges :: "(string \<times> string) list"
  conditional_edges :: "(string \<times> 'w router) list"
  start :: string

text \<open>
  Modelled from the spec: \<open>compile\<close> of section 4.1.  The source names the start node
  by its edge from \<open>START\<close>, so the spec's \<open>startId\<close> is the target of that edge.
  Compilation fails with \<open>ConfigurationError\<close> when (a) the start node has no outgoing
  edge, (b) a static edge's target is neither a registered node nor \<open>END\<close>, (c) a node
  id is registered twice, or (d) a router is attached to a source that has a static edge.
\<close>

definition compile :: "'w builder \<Rightarrow> error + 'w graph" where
  "compile b =
     (case map_of (edges b) START of
        None \<Rightarrow> Inl ConfigurationError
      | Some startId \<Rightarrow>
          if startId \<notin> set (map fst (edges b)) \<and> startId \<notin> set (map fst (branches b))
            then Inl ConfigurationError
          else if list_ex (\<lambda>e. snd e \<notin> set (map fst (nodes b)) \<and> snd e \<noteq> END) (edges b)
            then Inl ConfigurationError
          else if \<not> distinct (map fst (nodes b))
            then Inl ConfigurationError
          else if list_ex (\<lambda>c. fst c \<in> set (map fst (edges b))) (branches b)
            then Inl ConfigurationError
          else Inr \<lparr>node_registry = nodes b, static_edges = edges b,
                    conditional_edges = branches b, start = startId\<rparr>)"

text \<open>
  Modelled from the spec: the resolution of the next target in section 4.2.  A static
  edge gives its target; otherwise the router is asked on the merged State.  The target
  must be a registered node id or \<open>END\<close>, else \<open>RoutingError\<close>.  A failed call of the
  collaborator inside the router aborts the run (sections 6 and 7).  The spec gives every
  source node exactly one edge; a node with none is reported as \<open>ConfigurationError\<close>.
\<close>

definition resolve :: "'w graph \<Rightarrow> string \<Rightarrow> state \<Rightarrow> 'w \<Rightarrow> (error + string) \<times> 'w" where
  "resolve g current s w =
     (case (case map_of (static_edges g) current of
              Some target \<Rightarrow> (Inr target, w)
            | None \<Rightarrow>
                (case map_of (conditional_edges g) current of
                   None \<Rightarrow> (Inl ConfigurationError, w)
                 | Some router \<Rightarrow>
                     (case router s w of
                        (None, w') \<Rightarrow> (Inl CollaboratorFailure, w')
                      | (Some nxt, w') \<Rightarrow> (Inr nxt, w')))) of
        (Inl e, w') \<Rightarrow> (Inl e, w')
      | (Inr nxt, w') \<Rightarrow>
          if nxt \<in> set (map fst (node_registry g)) \<or> nxt = END then (Inr nxt, w')
          else (Inl RoutingError, w'))"

text \<open>
  What a run leaves behind: its result (the final State, or the error raised), the step
  counter and the value of \<open>current\<close> when the loop stopped, and two logs kept for the
  properties below: the ids of the nodes whose processing was started, in order, and
  the States of the run, the initial one first and then the State after each merge.
\<close>

record 'w run =
  result :: "error + state"
  steps :: nat
  stopped_at :: string
  executed :: "string list"
  history :: "state list"
  world :: 'w

text \<open>
  Modelled from the spec: the loop of \<open>invoke\<close> in section 4.2.  The second argument is
  \<open>maxSteps - steps\<close>, the number of steps still allowed, so that the spec's test
  \<open>steps == maxSteps\<close> is the test for 0.  A node that is not registered is reported as
  \<open>ConfigurationError\<close>; a failed collaborator call inside a node aborts the run.
\<close>

fun engine_loop ::
  "'w graph \<Rightarrow> nat \<Rightarrow> string \<Rightarrow> state \<Rightarrow> nat \<Rightarrow> string list \<Rightarrow> state list \<Rightarrow> 'w \<Rightarrow> 'w run"
where
  "engine_loop g 0 current s n ex hist w =
     (if current = END
        then \<lparr>result = Inr s, steps = n, stopped_at = current,
              executed = ex, history = hist, world = w\<rparr>
      else \<lparr>result = Inl ExecutionLimitExceeded, steps = n, stopped_at = current,
             executed = ex, history = hist, world = w\<rparr>)"
| "engine_loop g (Suc r) current s n ex hist w =
     (if current = END
        then \<lparr>result = Inr s, steps = n, stopped_at = current,
              executed = ex, history = hist, world = w\<rparr>
      else
        (case map_of (node_registry g) current of
           None \<Rightarrow>
             \<lparr>result = Inl ConfigurationError, steps = n, stopped_at = current,
              executed = ex, history = hist, world = w\<rparr>
         | Some process \<Rightarrow>
             (case process s w of
                (None, w') \<Rightarrow>
                  \<lparr>result = Inl CollaboratorFailure, steps = n, stopped_at = current,
                   executed = ex @ [current], history = hist, world = w'\<rparr>
              | (Some u, w') \<Rightarrow>
                  (case resolve g current (merge s u) w' of
                     (Inl e, w'') \<Rightarrow>
                       \<lparr>result = Inl e, steps = n, stopped_at = current,
                        executed = ex @ [current], history = hist @ [merge s u],
                        world = w''\<rparr>
                   | (Inr nxt, w'') \<Rightarrow>
                       engine_loop g r nxt (merge s u) (Suc n) (ex @ [current])
                         (hist @ [merge s u]) w''))))"

definition invoke :: "'w graph \<Rightarrow> state \<Rightarrow> nat \<Rightarrow> 'w \<Rightarrow> 'w run" where
  "invoke g initialState maxSteps w =
     engine_loop g maxSteps (start g) initialState 0 [] [initialState] w"

section \<open>The two graphs\<close>

text \<open>
  \<open>create_supervisor_swarm\<close>.  The source constructs the four agents itself, each with
  its own client and prompt; here they are parameters.
\<close>

definition supervisor_node :: "'w node" where
  "supervisor_node s w =
     (Some \<lparr>u_messages = Some (messages s), u_next_agent = None,
            u_task_complete = None\<rparr>, w)"

definition create_supervisor_swarm ::
  "'w agent \<Rightarrow> 'w agent \<Rightarrow> 'w agent \<Rightarrow> 'w agent \<Rightarrow> error + 'w graph"
where
  "create_supervisor_swarm supervisor researcher writer reviewer =
     (let builder = StateGraph;
          builder = add_node ''researcher'' (ResearchAgent_process researcher) builder;
          builder = add_node ''writer'' (WriterAgent_process writer) builder;
          builder = add_node ''reviewer'' (ReviewerAgent_process reviewer) builder;
          builder = add_node ''supervisor'' supervisor_node builder;
          builder = add_edge START ''supervisor'' builder;
          builder = add_conditional_edges ''supervisor'' (supervisor_router supervisor) builder;
          builder = add_edge ''researcher'' ''supervisor'' builder;
          builder = add_edge ''writer'' ''supervisor'' builder;
          builder = add_edge ''reviewer'' ''supervisor'' builder
      in compile builder)"

text \<open>
  \<open>create_handoff_swarm\<close>.  The classes of its four agents are not part of the
  sources at hand, so the four \<open>process\<close> functions are parameters.  \<open>route_next\<close>
  reads the State only.
\<close>

definition route_next_router :: "'w router" where
  "route_next_router s w = (Some (route_next s), w)"

definition create_handoff_swarm ::
  "'w node \<Rightarrow> 'w node \<Rightarrow> 'w node \<Rightarrow> 'w node \<Rightarrow> error + 'w graph"
where
  "create_handoff_swarm triage technical creative data =
     (let builder = StateGraph;
          builder = add_node ''triage'' triage builder;
          builder = add_node ''technical'' technical builder;
          builder = add_node ''creative'' creative builder;
          builder = add_node ''data'' data builder;
          builder = add_edge START ''triage'' builder;
          builder = add_conditional_edges ''triage'' route_next_router builder;
          builder = add_conditional_edges ''technical'' route_next_router builder;
          builder = add_conditional_edges ''creative'' route_next_router builder;
          builder = add_conditional_edges ''data'' route_next_router builder
      in compile builder)"

section \<open>Predicates of the properties and scripted collaborators\<close>

text \<open>
  A node or router that reads the State only: it leaves the world as it is, and its
  answer does not depend on the world.
\<close>

definition state_only :: "(state \<Rightarrow> 'w \<Rightarrow> 'a \<times> 'w) \<Rightarrow> bool" where
  "state_only f = (\<forall>s w w'. f s w = (fst (f s w'), w))"

text \<open>
  A graph whose start node has a conditional edge that always routes back to that node,
  and whose node and router never fail.
\<close>

definition always_routes_back :: "'w graph \<Rightarrow> bool" where
  "always_routes_back g =
     (start g \<noteq> END
      \<and> map_of (static_edges g) (start g) = None
      \<and> (\<exists>process router.
            map_of (node_registry g) (start g) = Some process
          \<and> map_of (conditional_edges g) (start g) = Some router
          \<and> (\<forall>s w. fst (process s w) \<noteq> None)
          \<and> (\<forall>s w. fst (router s w) = Some (start g))))"

text \<open>
  A collaborator that answers from a script: the world is the list of the answers still
  to come, and a call on the empty script fails.
\<close>

definition scripted_llm :: "string list llm" where
  "scripted_llm input w =
     (case w of
        [] \<Rightarrow> (None, [])
      | r # rs \<Rightarrow> (Some \<lparr>role = AIMessage, content = r\<rparr>, rs))"

definition scripted_agent :: "string list agent" where
  "scripted_agent = \<lparr>llm = scripted_llm, system_prompt = ''prompt''\<rparr>"

definition task_state :: state where
  "task_state =
     \<lparr>messages = [\<lparr>role = HumanMessage, content = ''task''\<rparr>],
      next_agent = None, task_complete = None\<rparr>"

text \<open>A node that appends nothing and never fails, and a router that always answers \<open>t\<close>.\<close>

definition idle_node :: "'w node" where
  "idle_node s w =
     (Some \<lparr>u_messages = None, u_next_agent = None, u_task_complete = None\<rparr>, w)"

definition const_router :: "string \<Rightarrow> 'w router" where
  "const_router t s w = (Some t, w)"

definition loop_graph :: "'w graph" where
  "loop_graph =
     \<lparr>node_registry = [(''a'', idle_node)], static_edges = [],
      conditional_edges = [(''a'', const_router ''a'')], start = ''a''\<rparr>"

text \<open>A node that answers a fixed update and never fails.\<close>

definition fixed_node :: "update \<Rightarrow> 'w node" where
  "fixed_node u s w = (Some u, w)"

text \<open>
  The handoff graph of the spec's scenario A: triage hands off to creative, creative
  completes the task, each appending one message.
\<close>

definition scenario_a :: "error + string list graph" where
  "scenario_a =
     create_handoff_swarm
       (fixed_node \<lparr>u_messages = Some [\<lparr>role = AIMessage, content = ''to creative''\<rparr>],
                    u_next_agent = Some ''creative'', u_task_complete = Some False\<rparr>)
       idle_node
       (fixed_node \<lparr>u_messages = Some [\<lparr>role = AIMessage, content = ''done''\<rparr>],
                    u_next_agent = None, u_task_complete = Some True\<rparr>)
       idle_node"

text \<open>A handoff graph whose triage node asks the collaborator.\<close>

definition asking_handoff :: "error + string list graph" where
  "asking_handoff =
     create_handoff_swarm (ResearchAgent_process scripted_agent) idle_node idle_node idle_node"

text \<open>The supervisor graph with the scripted collaborator behind all four agents.\<close>

definition scripted_supervisor :: "error + string list graph" where
  "scripted_supervisor =
     create_supervisor_swarm scripted_agent scripted_agent scripted_agent scripted_agent"

text \<open>
  A graph in which no call fails: every registered node and every router answers, in
  every State and every world.
\<close>

definition never_fails :: "'w graph \<Rightarrow> bool" where
  "never_fails g =
     (list_all (\<lambda>p. \<forall>s w. fst (p s w) \<noteq> None) (map snd (node_registry g))
      \<and> list_all (\<lambda>r. \<forall>s w. fst (r s w) \<noteq> None) (map snd (conditional_edges g)))"

text \<open>
  A graph that keeps cycling inside the set \<open>A\<close> of node ids: the start node is in \<open>A\<close>,
  and every node of \<open>A\<close> is registered, never fails, and its edge (static, or the router
  on any State) always leads to a node of \<open>A\<close> again, never to \<open>END\<close>.
\<close>

definition cycles_within :: "'w graph \<Rightarrow> string set \<Rightarrow> bool" where
  "cycles_within g A =
     (start g \<in> A
      \<and> (\<forall>c \<in> A. c \<noteq> END
            \<and> (\<exists>process. map_of (node_registry g) c = Some process
                  \<and> (\<forall>s w. fst (process s w) \<noteq> None))
            \<and> (\<forall>s w. \<exists>t \<in> A. fst (resolve g c s w) = Inr t)))"

text \<open>
  A collaborator that always gives the same answer and never fails, and the supervisor
  graph whose classifier always answers researcher.
\<close>

definition constant_llm :: "string \<Rightarrow> 'w llm" where
  "constant_llm r input w = (Some \<lparr>role = AIMessage, content = r\<rparr>, w)"

definition constant_agent :: "string \<Rightarrow> 'w agent" where
  "constant_agent r = \<lparr>llm = constant_llm r, system_prompt = ''prompt''\<rparr>"

definition researching_supervisor :: "error + unit graph" where
  "researching_supervisor =
     create_supervisor_swarm (constant_agent ''researcher'') (constant_agent ''notes'')
       (constant_agent ''text'') (constant_agent ''review'')"

section \<open>Substring containment\<close>

lemma starts_with_prefix: "starts_with sub s = prefix sub s"
  by (induction sub s rule: starts_with.induct) simp_all

lemma str_in_sublist: "str_in sub s = sublist sub s"
  by (induction s) (simp_all add: starts_with_prefix sublist_Cons_right)

section \<open>The routers\<close>

text \<open>
  C3.  Whatever the classifier answers, \<open>SupervisorAgent.route\<close> looks for the labels in
  the stripped, lower-cased answer in the order finish, researcher, writer, reviewer:
  an answer that contains \<open>finish\<close> anywhere gives \<open>finish\<close>, whatever else it contains;
  otherwise the first of researcher, writer, reviewer that it contains is returned.
  Containment is occurrence as a contiguous run (\<open>sublist\<close>).
\<close>

theorem route_priority:
  assumes "llm self (Msg \<lparr>role = SystemMessage, content = system_prompt self\<rparr> # map Msg msgs) w
             = (Some response, w')"
    and "t = lower (strip (content response))"
  shows "(sublist ''finish'' t \<longrightarrow> SupervisorAgent_route self msgs w = (Some ''finish'', w'))
    \<and> (\<not> sublist ''finish'' t \<and> sublist ''researcher'' t
         \<longrightarrow> SupervisorAgent_route self msgs w = (Some ''researcher'', w'))
    \<and> (\<not> sublist ''finish'' t \<and> \<not> sublist ''researcher'' t \<and> sublist ''writer'' t
         \<longrightarrow> SupervisorAgent_route self msgs w = (Some ''writer'', w'))
    \<and> (\<not> sublist ''finish'' t \<and> \<not> sublist ''researcher'' t \<and> \<not> sublist ''writer'' t
          \<and> sublist ''reviewer'' t
         \<longrightarrow> SupervisorAgent_route self msgs w = (Some ''reviewer'', w'))"
  using assms by (simp add: SupervisorAgent_route_def str_in_sublist Let_def)

theorem route_priority_witness:
  "sublist ''finish'' ''writer, then finish''
   \<and> sublist ''writer'' ''writer, then finish''
   \<and> SupervisorAgent_route scripted_agent [] ['' Writer, then FINISH '']
       = (Some ''finish'', [])"
proof -
  have call: "llm scripted_agent
      (Msg \<lparr>role = SystemMessage, content = system_prompt scripted_agent\<rparr> # map Msg [])
      ['' Writer, then FINISH '']
      = (Some \<lparr>role = AIMessage, content = '' Writer, then FINISH ''\<rparr>, [])"
    by (simp add: scripted_agent_def scripted_llm_def)
  have norm: "''writer, then finish''
      = lower (strip (content \<lparr>role = AIMessage, content = '' Writer, then FINISH ''\<rparr>))"
    by code_simp
  have f: "sublist ''finish'' ''writer, then finish''"
    by (simp add: str_in_sublist [symmetric])
  have w: "sublist ''writer'' ''writer, then finish''"
    by (simp add: str_in_sublist [symmetric])
  from route_priority [OF call norm] f w show ?thesis by simp
qed

text \<open>
  C5.  When the normalised answer contains none of the four labels,
  \<open>SupervisorAgent.route\<close> falls back to \<open>finish\<close> and \<open>supervisor_router\<close> answers \<open>END\<close>:
  both return a value, no error is raised.
\<close>

theorem route_fallback:
  assumes "llm self (Msg \<lparr>role = SystemMessage, content = system_prompt self\<rparr>
                       # map Msg (messages s)) w = (Some response, w')"
    and "t = lower (strip (content response))"
    and "\<not> sublist ''finish'' t" and "\<not> sublist ''researcher'' t"
    and "\<not> sublist ''writer'' t" and "\<not> sublist ''reviewer'' t"
  shows "SupervisorAgent_route self (messages s) w = (Some ''finish'', w')
     \<and> supervisor_router self s w = (Some END, w')"
  using assms
  by (simp add: SupervisorAgent_route_def supervisor_router_def str_in_sublist Let_def)

theorem route_fallback_witness:
  "SupervisorAgent_route scripted_agent (messages task_state) [''I am not sure'']
     = (Some ''finish'', [])
   \<and> supervisor_router scripted_agent task_state [''I am not sure''] = (Some END, [])"
proof -
  have call: "llm scripted_agent
      (Msg \<lparr>role = SystemMessage, content = system_prompt scripted_agent\<rparr>
         # map Msg (messages task_state))
      [''I am not sure'']
      = (Some \<lparr>role = AIMessage, content = ''I am not sure''\<rparr>, [])"
    by (simp add: scripted_agent_def scripted_llm_def)
  have norm: "''i am not sure''
      = lower (strip (content \<lparr>role = AIMessage, content = ''I am not sure''\<rparr>))"
    by code_simp
  have n: "\<not> sublist ''finish'' ''i am not sure''" "\<not> sublist ''researcher'' ''i am not sure''"
    "\<not> sublist ''writer'' ''i am not sure''" "\<not> sublist ''reviewer'' ''i am not sure''"
    by (simp_all add: str_in_sublist [symmetric])
  from route_fallback [OF call norm n] show ?thesis .
qed

text \<open>
  C4.  When \<open>task_complete\<close> is set (true), \<open>route_next\<close> returns \<open>END\<close>, whatever
  \<open>next_agent\<close> holds.
\<close>

theorem route_next_complete:
  "task_complete s = Some True \<Longrightarrow> route_next s = END"
  by (simp add: route_next_def)

theorem route_next_complete_witness:
  "task_complete (task_state\<lparr>next_agent := Some ''technical'', task_complete := Some True\<rparr>)
     = Some True
   \<and> route_next (task_state\<lparr>next_agent := Some ''technical'', task_complete := Some True\<rparr>)
     = END"
  using route_next_complete
    [of "task_state\<lparr>next_agent := Some ''technical'', task_complete := Some True\<rparr>"]
  by simp

text \<open>
  C6.  When \<open>task_complete\<close> is absent or false, \<open>route_next\<close> returns \<open>next_agent\<close> if
  it is one of the targets the router declares (technical, creative, data), and \<open>END\<close>
  if the field is absent or holds anything else.
\<close>

theorem route_next_target:
  assumes "task_complete s = None \<or> task_complete s = Some False"
  shows "(\<forall>a. next_agent s = Some a \<and> a \<in> {''technical'', ''creative'', ''data''}
             \<longrightarrow> route_next s = a)
    \<and> (next_agent s = None \<longrightarrow> route_next s = END)
    \<and> (\<forall>a. next_agent s = Some a \<and> a \<notin> {''technical'', ''creative'', ''data''}
             \<longrightarrow> route_next s = END)"
  using assms by (auto simp add: route_next_def Let_def)

theorem route_next_target_witness:
  "route_next (task_state\<lparr>next_agent := Some ''creative'', task_complete := Some False\<rparr>)
     = ''creative''
   \<and> route_next (task_state\<lparr>next_agent := Some ''triage''\<rparr>) = END
   \<and> route_next task_state = END"
  using route_next_target
      [of "task_state\<lparr>next_agent := Some ''creative'', task_complete := Some False\<rparr>"]
    route_next_target [of "task_state\<lparr>next_agent := Some ''triage''\<rparr>"]
    route_next_target [of task_state]
  by (simp add: task_state_def)

section \<open>The execution engine\<close>

lemma map_of_list_all:
  "list_all P (map snd xs) \<Longrightarrow> map_of xs k = Some v \<Longrightarrow> P v"
  by (induction xs) (auto split: if_splits)

lemma resolve_error:
  "resolve g c s w = (Inl e, w')
     \<Longrightarrow> e = ConfigurationError \<or> e = CollaboratorFailure \<or> e = RoutingError"
  by (auto simp add: resolve_def split: option.splits prod.splits sum.splits if_splits)

lemma resolve_target:
  "resolve g c s w = (Inr t, w') \<Longrightarrow> t \<in> set (map fst (node_registry g)) \<or> t = END"
  by (auto simp add: resolve_def split: option.splits prod.splits sum.splits if_splits)

lemma engine_loop_bounds:
  "steps (engine_loop g r c s n ex hist w) \<le> n + r
   \<and> length (executed (engine_loop g r c s n ex hist w)) \<le> length ex + r"
proof (induction r arbitrary: c s n ex hist w)
  case 0
  show ?case by simp
next
  case (Suc r)
  have "\<And>c' s' w'.
      steps (engine_loop g r c' s' (Suc n) (ex @ [c]) (hist @ [s']) w') \<le> Suc (n + r)
      \<and> length (executed (engine_loop g r c' s' (Suc n) (ex @ [c]) (hist @ [s']) w'))
          \<le> Suc (length ex + r)"
    using Suc.IH [of _ _ "Suc n" "ex @ [c]"] by simp
  then show ?case
    by (simp split: option.split prod.split sum.split)
qed

lemma engine_loop_outcome:
  "(stopped_at (engine_loop g r c s n ex hist w) = END
      \<longleftrightarrow> (\<exists>s'. result (engine_loop g r c s n ex hist w) = Inr s'))
   \<and> (result (engine_loop g r c s n ex hist w) = Inl ExecutionLimitExceeded
      \<longrightarrow> steps (engine_loop g r c s n ex hist w) = n + r)"
proof (induction r arbitrary: c s n ex hist w)
  case 0
  show ?case by simp
next
  case (Suc r)
  have ih: "\<And>c' s' w'.
      (stopped_at (engine_loop g r c' s' (Suc n) (ex @ [c]) (hist @ [s']) w') = END
         \<longleftrightarrow> (\<exists>t. result (engine_loop g r c' s' (Suc n) (ex @ [c]) (hist @ [s']) w') = Inr t))
      \<and> (result (engine_loop g r c' s' (Suc n) (ex @ [c]) (hist @ [s']) w')
            = Inl ExecutionLimitExceeded
         \<longrightarrow> steps (engine_loop g r c' s' (Suc n) (ex @ [c]) (hist @ [s']) w') = Suc (n + r))"
    using Suc.IH [of _ _ "Suc n" "ex @ [c]"] by simp
  show ?case
    using ih by (auto split: option.split prod.split sum.split dest: resolve_error)
qed

lemma self_loop_run:
  assumes "c \<noteq> END" and "map_of (static_edges g) c = None"
    and "map_of (node_registry g) c = Some process"
    and "map_of (conditional_edges g) c = Some router"
    and "\<forall>s w. fst (process s w) \<noteq> None" and "\<forall>s w. fst (router s w) = Some c"
  shows "result (engine_loop g r c s n ex hist w) = Inl ExecutionLimitExceeded
    \<and> steps (engine_loop g r c s n ex hist w) = n + r
    \<and> executed (engine_loop g r c s n ex hist w) = ex @ replicate r c"
proof (induction r arbitrary: s n ex hist w)
  case 0
  show ?case using assms(1) by simp
next
  case (Suc r)
  obtain u w' where p: "process s w = (Some u, w')"
    using assms(5) by (cases "process s w") (metis fst_conv not_None_eq)
  obtain w'' where rt: "router (merge s u) w' = (Some c, w'')"
    using assms(6) by (cases "router (merge s u) w'") (metis fst_conv)
  have reg: "c \<in> set (map fst (node_registry g))"
    using assms(3) by (metis map_of_eq_None_iff option.distinct(1) set_map)
  have "resolve g c (merge s u) w' = (Inr c, w'')"
    using assms(2,4) rt reg by (simp add: resolve_def)
  then have "engine_loop g (Suc r) c s n ex hist w
      = engine_loop g r c (merge s u) (Suc n) (ex @ [c]) (hist @ [merge s u]) w''"
    using assms(1,3) p by simp
  then show ?case
    using Suc [of "merge s u" "Suc n" "ex @ [c]" "hist @ [merge s u]" w'']
    by (simp add: replicate_app_Cons_same)
qed

lemma create_supervisor_swarm_compiles:
  "create_supervisor_swarm supervisor researcher writer reviewer =
     Inr \<lparr>node_registry =
            [(''researcher'', ResearchAgent_process researcher),
             (''writer'', WriterAgent_process writer),
             (''reviewer'', ReviewerAgent_process reviewer),
             (''supervisor'', supervisor_node)],
          static_edges =
            [(START, ''supervisor''), (''researcher'', ''supervisor''),
             (''writer'', ''supervisor''), (''reviewer'', ''supervisor'')],
          conditional_edges = [(''supervisor'', supervisor_router supervisor)],
          start = ''supervisor''\<rparr>"
  by (simp add: create_supervisor_swarm_def compile_def StateGraph_def add_node_def
      add_edge_def add_conditional_edges_def START_def END_def)

lemma create_handoff_swarm_compiles:
  "create_handoff_swarm triage technical creative data =
     Inr \<lparr>node_registry =
            [(''triage'', triage), (''technical'', technical),
             (''creative'', creative), (''data'', data)],
          static_edges = [(START, ''triage'')],
          conditional_edges =
            [(''triage'', route_next_router), (''technical'', route_next_router),
             (''creative'', route_next_router), (''data'', route_next_router)],
          start = ''triage''\<rparr>"
  by (simp add: create_handoff_swarm_def compile_def StateGraph_def add_node_def
      add_edge_def add_conditional_edges_def START_def END_def)

lemma engine_loop_Suc_cases:
  obtains
    (at_end) "c = END"
      "engine_loop g (Suc r) c s n ex hist w
         = \<lparr>result = Inr s, steps = n, stopped_at = c, executed = ex, history = hist,
            world = w\<rparr>"
  | (unregistered) "c \<noteq> END" "map_of (node_registry g) c = None"
      "engine_loop g (Suc r) c s n ex hist w
         = \<lparr>result = Inl ConfigurationError, steps = n, stopped_at = c, executed = ex,
            history = hist, world = w\<rparr>"
  | (node_failed) p w' where "c \<noteq> END" "map_of (node_registry g) c = Some p"
      "p s w = (None, w')"
      "engine_loop g (Suc r) c s n ex hist w
         = \<lparr>result = Inl CollaboratorFailure, steps = n, stopped_at = c,
            executed = ex @ [c], history = hist, world = w'\<rparr>"
  | (no_target) p u w' e w'' where "c \<noteq> END" "map_of (node_registry g) c = Some p"
      "p s w = (Some u, w')" "resolve g c (merge s u) w' = (Inl e, w'')"
      "engine_loop g (Suc r) c s n ex hist w
         = \<lparr>result = Inl e, steps = n, stopped_at = c, executed = ex @ [c],
            history = hist @ [merge s u], world = w''\<rparr>"
  | (step) p u w' t w'' where "c \<noteq> END" "map_of (node_registry g) c = Some p"
      "p s w = (Some u, w')" "resolve g c (merge s u) w' = (Inr t, w'')"
      "engine_loop g (Suc r) c s n ex hist w
         = engine_loop g r t (merge s u) (Suc n) (ex @ [c]) (hist @ [merge s u]) w''"
proof (cases "c = END")
  case True
  then show ?thesis using at_end by simp
next
  case False
  show ?thesis
  proof (cases "map_of (node_registry g) c")
    case None
    with False show ?thesis using unregistered by simp
  next
    case (Some p)
    obtain ou w' where p: "p s w = (ou, w')" by (cases "p s w")
    show ?thesis
    proof (cases ou)
      case None
      with False Some p show ?thesis using node_failed by simp
    next
      case (Some u)
      obtain res w'' where rs: "resolve g c (merge s u) w' = (res, w'')"
        by (cases "resolve g c (merge s u) w'")
      show ?thesis
      proof (cases res)
        case (Inl e)
        with False \<open>map_of (node_registry g) c = Some p\<close> p Some rs
        show ?thesis using no_target by simp
      next
        case (Inr t)
        with False \<open>map_of (node_registry g) c = Some p\<close> p Some rs
        show ?thesis using step by simp
      qed
    qed
  qed
qed

lemma resolve_collaborator_failure:
  assumes "resolve g c s w = (Inl CollaboratorFailure, w')"
  shows "\<exists>router. map_of (conditional_edges g) c = Some router \<and> fst (router s w) = None"
  using assms
  by (auto simp add: resolve_def split: option.splits prod.splits sum.splits if_splits)

lemma resolve_not_limit:
  "resolve g c s w \<noteq> (Inl ExecutionLimitExceeded, w')"
  using resolve_error [of g c s w ExecutionLimitExceeded w'] by auto

lemma engine_loop_limit:
  "result (engine_loop g r c s n ex hist w) = Inl ExecutionLimitExceeded
     \<Longrightarrow> steps (engine_loop g r c s n ex hist w) = n + r
       \<and> length (executed (engine_loop g r c s n ex hist w)) = length ex + r
       \<and> stopped_at (engine_loop g r c s n ex hist w) \<noteq> END"
proof (induction r arbitrary: c s n ex hist w)
  case 0
  then show ?case by (simp split: if_splits)
next
  case (Suc r)
  show ?case
  proof (cases rule: engine_loop_Suc_cases [of c g r s n ex hist w])
    case at_end
    with Suc.prems show ?thesis by simp
  next
    case unregistered
    with Suc.prems show ?thesis by simp
  next
    case (node_failed p w')
    with Suc.prems show ?thesis by simp
  next
    case (no_target p u w' e w'')
    with Suc.prems have "e = ExecutionLimitExceeded" by simp
    with no_target(4) resolve_not_limit [of g c "merge s u" w' w''] show ?thesis by simp
  next
    case (step p u w' t w'')
    with Suc.prems Suc.IH [of t "merge s u" "Suc n" "ex @ [c]" "hist @ [merge s u]" w'']
    show ?thesis by simp
  qed
qed

lemma engine_loop_other_error:
  "result (engine_loop g r c s n ex hist w) = Inl e \<Longrightarrow> e \<noteq> ExecutionLimitExceeded
     \<Longrightarrow> steps (engine_loop g r c s n ex hist w) < n + r"
proof (induction r arbitrary: c s n ex hist w)
  case 0
  then show ?case by (simp split: if_splits)
next
  case (Suc r)
  show ?case
  proof (cases rule: engine_loop_Suc_cases [of c g r s n ex hist w])
    case (step p u w' t w'')
    with Suc.prems Suc.IH [of t "merge s u" "Suc n" "ex @ [c]" "hist @ [merge s u]" w'']
    show ?thesis by simp
  qed (use Suc.prems in simp_all)
qed

lemma engine_loop_collaborator_failure:
  "result (engine_loop g r c s n ex hist w) = Inl CollaboratorFailure \<Longrightarrow> \<not> never_fails g"
proof (induction r arbitrary: c s n ex hist w)
  case 0
  then show ?case by (simp split: if_splits)
next
  case (Suc r)
  show ?case
  proof (cases rule: engine_loop_Suc_cases [of c g r s n ex hist w])
    case at_end
    with Suc.prems show ?thesis by simp
  next
    case unregistered
    with Suc.prems show ?thesis by simp
  next
    case (node_failed p w')
    show ?thesis
    proof
      assume "never_fails g"
      then have "list_all (\<lambda>p. \<forall>s w. fst (p s w) \<noteq> None) (map snd (node_registry g))"
        by (simp add: never_fails_def)
      from map_of_list_all [OF this node_failed(2)] have "fst (p s w) \<noteq> None" by simp
      with node_failed(3) show False by simp
    qed
  next
    case (no_target p u w' e w'')
    with Suc.prems have "e = CollaboratorFailure" by simp
    with no_target(4) have "resolve g c (merge s u) w' = (Inl CollaboratorFailure, w'')"
      by simp
    from resolve_collaborator_failure [OF this]
    obtain router where r: "map_of (conditional_edges g) c = Some router"
        "fst (router (merge s u) w') = None"
      by auto
    show ?thesis
    proof
      assume "never_fails g"
      then have "list_all (\<lambda>r. \<forall>s w. fst (r s w) \<noteq> None) (map snd (conditional_edges g))"
        by (simp add: never_fails_def)
      from map_of_list_all [OF this r(1)] have "fst (router (merge s u) w') \<noteq> None"
        by simp
      with r(2) show False by simp
    qed
  next
    case (step p u w' t w'')
    with Suc.prems Suc.IH [of t "merge s u" "Suc n" "ex @ [c]" "hist @ [merge s u]" w'']
    show ?thesis by simp
  qed
qed

lemma engine_loop_cycles:
  assumes "\<forall>c \<in> A. c \<noteq> END
            \<and> (\<exists>process. map_of (node_registry g) c = Some process
                  \<and> (\<forall>s w. fst (process s w) \<noteq> None))
            \<and> (\<forall>s w. \<exists>t \<in> A. fst (resolve g c s w) = Inr t)"
    and "c \<in> A"
  shows "result (engine_loop g r c s n ex hist w) = Inl ExecutionLimitExceeded
    \<and> steps (engine_loop g r c s n ex hist w) = n + r
    \<and> (\<exists>xs. executed (engine_loop g r c s n ex hist w) = ex @ xs
          \<and> length xs = r \<and> set xs \<subseteq> A)"
  using assms(2)
proof (induction r arbitrary: c s n ex hist w)
  case 0
  from assms(1) 0 have "c \<noteq> END
            \<and> (\<exists>process. map_of (node_registry g) c = Some process
                  \<and> (\<forall>s w. fst (process s w) \<noteq> None))
            \<and> (\<forall>s w. \<exists>t \<in> A. fst (resolve g c s w) = Inr t)"
    by (rule bspec)
  then have "c \<noteq> END" by (rule conjunct1)
  then show ?case by simp
next
  case (Suc r)
  from assms(1) Suc.prems have all: "c \<noteq> END
            \<and> (\<exists>process. map_of (node_registry g) c = Some process
                  \<and> (\<forall>s w. fst (process s w) \<noteq> None))
            \<and> (\<forall>s w. \<exists>t \<in> A. fst (resolve g c s w) = Inr t)"
    by (rule bspec)
  then have ne: "c \<noteq> END"
    and rt: "\<forall>s w. \<exists>t \<in> A. fst (resolve g c s w) = Inr t"
    by simp_all
  from all obtain p where reg: "map_of (node_registry g) c = Some p"
      and ok: "\<forall>s w. fst (p s w) \<noteq> None"
    by (elim conjE exE)
  show ?case
  proof (cases rule: engine_loop_Suc_cases [of c g r s n ex hist w])
    case at_end
    with ne have False by simp
    then show ?thesis ..
  next
    case unregistered
    with reg have False by simp
    then show ?thesis ..
  next
    case (node_failed q w')
    with reg have "fst (p s w) = None" by simp
    moreover from ok have "fst (p s w) \<noteq> None" by simp
    ultimately have False by simp
    then show ?thesis ..
  next
    case (no_target q u w' e w'')
    from rt obtain t where "fst (resolve g c (merge s u) w') = Inr t" by blast
    with no_target(4) have False by simp
    then show ?thesis ..
  next
    case (step q u w' t w'')
    from rt obtain t' where "t' \<in> A" "fst (resolve g c (merge s u) w') = Inr t'" by blast
    with step(4) have "t \<in> A" by simp
    from Suc.IH [OF this, of "merge s u" "Suc n" "ex @ [c]" "hist @ [merge s u]" w'']
    obtain xs where
      "result (engine_loop g r t (merge s u) (Suc n) (ex @ [c]) (hist @ [merge s u]) w'')
         = Inl ExecutionLimitExceeded"
      "steps (engine_loop g r t (merge s u) (Suc n) (ex @ [c]) (hist @ [merge s u]) w'')
         = Suc n + r"
      "executed (engine_loop g r t (merge s u) (Suc n) (ex @ [c]) (hist @ [merge s u]) w'')
         = (ex @ [c]) @ xs" "length xs = r" "set xs \<subseteq> A"
      by (elim conjE exE)
    with step(5) Suc.prems have "result (engine_loop g (Suc r) c s n ex hist w)
          = Inl ExecutionLimitExceeded
      \<and> steps (engine_loop g (Suc r) c s n ex hist w) = n + Suc r
      \<and> (executed (engine_loop g (Suc r) c s n ex hist w) = ex @ (c # xs)
      \<and> length (c # xs) = Suc r \<and> set (c # xs) \<subseteq> A)"
      by simp
    then show ?thesis by (intro conjI exI [of _ "c # xs"]) simp_all
  qed
qed

lemma alternate_Suc:
  "map (\<lambda>k. if even k then a else b) [0..<Suc r]
     = a # map (\<lambda>k. if even k then b else (a::'a)) [0..<r]"
proof -
  have "[0..<Suc r] = 0 # map Suc [0..<r]"
    by (simp add: upt_conv_Cons map_Suc_upt del: upt_Suc)
  then show ?thesis by (simp add: comp_def del: upt_Suc)
qed

lemma engine_loop_two_cycle:
  assumes "a \<noteq> END" and "b \<noteq> END"
    and "map_of (node_registry g) a = Some pa" and "map_of (node_registry g) b = Some pb"
    and "\<forall>s w. fst (pa s w) \<noteq> None" and "\<forall>s w. fst (pb s w) \<noteq> None"
    and "\<forall>s w. fst (resolve g a s w) = Inr b" and "\<forall>s w. fst (resolve g b s w) = Inr a"
  shows "executed (engine_loop g r a s n ex hist w)
     = ex @ map (\<lambda>k. if even k then a else b) [0..<r]"
  using assms
proof (induction r arbitrary: a b pa pb s n ex hist w)
  case 0
  then show ?case by simp
next
  case (Suc r)
  show ?case
  proof (cases rule: engine_loop_Suc_cases [of a g r s n ex hist w])
    case at_end
    with Suc.prems(1) have False by simp
    then show ?thesis ..
  next
    case unregistered
    with Suc.prems(3) have False by simp
    then show ?thesis ..
  next
    case (node_failed q w')
    with Suc.prems(3) have "fst (pa s w) = None" by simp
    moreover from Suc.prems(5) have "fst (pa s w) \<noteq> None" by simp
    ultimately have False by simp
    then show ?thesis ..
  next
    case (no_target q u w' e w'')
    from Suc.prems(7) have "fst (resolve g a (merge s u) w') = Inr b" by simp
    with no_target(4) have False by simp
    then show ?thesis ..
  next
    case (step q u w' t w'')
    from Suc.prems(7) have "fst (resolve g a (merge s u) w') = Inr b" by simp
    with step(4) have t: "t = b" by simp
    from Suc.IH [OF Suc.prems(2) Suc.prems(1) Suc.prems(4) Suc.prems(3) Suc.prems(6)
        Suc.prems(5) Suc.prems(8) Suc.prems(7),
        of "merge s u" "Suc n" "ex @ [a]" "hist @ [merge s u]" w'']
    have "executed (engine_loop g r b (merge s u) (Suc n) (ex @ [a]) (hist @ [merge s u]) w'')
        = (ex @ [a]) @ map (\<lambda>k. if even k then b else a) [0..<r]" .
    with step(5) t show ?thesis
      by (simp only: alternate_Suc) simp
  qed
qed

lemma supervisor_cycle:
  assumes "create_supervisor_swarm supervisor researcher writer reviewer = Inr g"
    and "\<forall>s w. fst (supervisor_router supervisor s w) = Some ''researcher''"
  shows "start g = ''supervisor''"
    and "map_of (node_registry g) ''supervisor'' = Some supervisor_node"
    and "map_of (node_registry g) ''researcher'' = Some (ResearchAgent_process researcher)"
    and "\<forall>s w. fst (resolve g ''supervisor'' s w) = Inr ''researcher''"
    and "\<forall>s w. fst (resolve g ''researcher'' s w) = Inr ''supervisor''"
proof -
  from assms(1) have g: "g = \<lparr>node_registry =
            [(''researcher'', ResearchAgent_process researcher),
             (''writer'', WriterAgent_process writer),
             (''reviewer'', ReviewerAgent_process reviewer),
             (''supervisor'', supervisor_node)],
          static_edges =
            [(START, ''supervisor''), (''researcher'', ''supervisor''),
             (''writer'', ''supervisor''), (''reviewer'', ''supervisor'')],
          conditional_edges = [(''supervisor'', supervisor_router supervisor)],
          start = ''supervisor''\<rparr>"
    by (simp add: create_supervisor_swarm_compiles)
  show "start g = ''supervisor''" by (simp add: g)
  show "map_of (node_registry g) ''supervisor'' = Some supervisor_node" by (simp add: g)
  show "map_of (node_registry g) ''researcher'' = Some (ResearchAgent_process researcher)"
    by (simp add: g)
  show "\<forall>s w. fst (resolve g ''supervisor'' s w) = Inr ''researcher''"
  proof (intro allI)
    fix s w
    from assms(2) have "fst (supervisor_router supervisor s w) = Some ''researcher''" by simp
    then obtain w' where "supervisor_router supervisor s w = (Some ''researcher'', w')"
      by (cases "supervisor_router supervisor s w") simp
    then show "fst (resolve g ''supervisor'' s w) = Inr ''researcher''"
      by (simp add: g resolve_def START_def)
  qed
  show "\<forall>s w. fst (resolve g ''researcher'' s w) = Inr ''supervisor''"
    by (simp add: g resolve_def START_def)
qed

lemma supervisor_node_never_fails: "\<forall>s w. fst (supervisor_node s w) \<noteq> None"
  by (simp add: supervisor_node_def)

lemma supervisor_cycles_within:
  assumes "create_supervisor_swarm supervisor researcher writer reviewer = Inr g"
    and "\<forall>s w. fst (supervisor_router supervisor s w) = Some ''researcher''"
    and "\<forall>s w. fst (ResearchAgent_process researcher s w) \<noteq> None"
  shows "cycles_within g {''supervisor'', ''researcher''}"
  using supervisor_cycle [OF assms(1,2)] assms(3) supervisor_node_never_fails
  by (simp add: cycles_within_def END_def)

text \<open>
  C1, as the claim states it, fails: a run can also end with the failure of a call to the
  collaborator, which the engine passes on.  In the supervisor graph with a collaborator
  that fails at once, the supervisor node runs, the router's call fails, and the run ends
  with \<open>CollaboratorFailure\<close>: not at \<open>END\<close>, and with none of the three errors of the claim.
\<close>

theorem invoke_outcome_counterexample:
  "isl (result (invoke (projr (create_supervisor_swarm scripted_agent scripted_agent
          scripted_agent scripted_agent)) task_state 5 []))
   \<and> projl (result (invoke (projr (create_supervisor_swarm scripted_agent scripted_agent
          scripted_agent scripted_agent)) task_state 5 []))
       \<notin> {ExecutionLimitExceeded, RoutingError, ConfigurationError}"
  by code_simp

text \<open>
  C1, amended.  For every graph, initial State, \<open>maxSteps\<close> and world, the run of \<open>invoke\<close>
  (a total function: the loop recurses on the number of steps still allowed) never counts
  or starts more than \<open>maxSteps\<close> steps, and it ends in exactly one of five ways: at \<open>END\<close>
  with the final State; with \<open>ExecutionLimitExceeded\<close>, not at \<open>END\<close>, after exactly
  \<open>maxSteps\<close> steps and node executions; with \<open>RoutingError\<close> or \<open>ConfigurationError\<close>
  before the bound; or with the failure of a collaborator call, which needs a node or a
  router of the graph that can fail.  In a graph whose nodes and routers never fail, only
  the three outcomes of the claim remain.  A graph whose start node is always routed back
  to itself ends with \<open>ExecutionLimitExceeded\<close> after exactly \<open>maxSteps\<close> executions of
  that node, and so does every graph that keeps cycling inside a set of nodes.  In
  particular, in the supervisor graph, when the classifier always answers researcher and
  the researcher's call does not fail, the run goes supervisor, researcher, supervisor,
  researcher, ... and ends with \<open>ExecutionLimitExceeded\<close> after exactly \<open>maxSteps\<close>
  executions.
\<close>

theorem invoke_terminates_bounded:
  "steps (invoke g s maxSteps w) \<le> maxSteps
   \<and> length (executed (invoke g s maxSteps w)) \<le> maxSteps
   \<and> ((\<exists>s'. result (invoke g s maxSteps w) = Inr s')
          \<and> stopped_at (invoke g s maxSteps w) = END
       \<or> result (invoke g s maxSteps w) = Inl ExecutionLimitExceeded
          \<and> stopped_at (invoke g s maxSteps w) \<noteq> END
          \<and> steps (invoke g s maxSteps w) = maxSteps
          \<and> length (executed (invoke g s maxSteps w)) = maxSteps
       \<or> result (invoke g s maxSteps w) = Inl RoutingError
          \<and> stopped_at (invoke g s maxSteps w) \<noteq> END
          \<and> steps (invoke g s maxSteps w) < maxSteps
       \<or> result (invoke g s maxSteps w) = Inl ConfigurationError
          \<and> stopped_at (invoke g s maxSteps w) \<noteq> END
          \<and> steps (invoke g s maxSteps w) < maxSteps
       \<or> result (invoke g s maxSteps w) = Inl CollaboratorFailure
          \<and> stopped_at (invoke g s maxSteps w) \<noteq> END
          \<and> steps (invoke g s maxSteps w) < maxSteps
          \<and> \<not> never_fails g)
   \<and> (never_fails g
        \<longrightarrow> (\<exists>s'. result (invoke g s maxSteps w) = Inr s')
          \<or> result (invoke g s maxSteps w) = Inl ExecutionLimitExceeded
          \<or> result (invoke g s maxSteps w) = Inl RoutingError
          \<or> result (invoke g s maxSteps w) = Inl ConfigurationError)
   \<and> (always_routes_back g
        \<longrightarrow> result (invoke g s maxSteps w) = Inl ExecutionLimitExceeded
          \<and> steps (invoke g s maxSteps w) = maxSteps
          \<and> executed (invoke g s maxSteps w) = replicate maxSteps (start g))
   \<and> (cycles_within g A
        \<longrightarrow> result (invoke g s maxSteps w) = Inl ExecutionLimitExceeded
          \<and> steps (invoke g s maxSteps w) = maxSteps
          \<and> length (executed (invoke g s maxSteps w)) = maxSteps
          \<and> set (executed (invoke g s maxSteps w)) \<subseteq> A)
   \<and> (\<forall>supervisor researcher writer reviewer.
         create_supervisor_swarm supervisor researcher writer reviewer = Inr g
         \<and> (\<forall>s w. fst (supervisor_router supervisor s w) = Some ''researcher'')
         \<and> (\<forall>s w. fst (ResearchAgent_process researcher s w) \<noteq> None)
        \<longrightarrow> result (invoke g s maxSteps w) = Inl ExecutionLimitExceeded
          \<and> steps (invoke g s maxSteps w) = maxSteps
          \<and> executed (invoke g s maxSteps w)
              = map (\<lambda>k. if even k then ''supervisor'' else ''researcher'') [0..<maxSteps])"
proof -
  let ?R = "invoke g s maxSteps w"
  have R: "?R = engine_loop g maxSteps (start g) s 0 [] [s] w"
    by (simp add: invoke_def)
  have bound: "steps ?R \<le> maxSteps \<and> length (executed ?R) \<le> maxSteps"
    using engine_loop_bounds [of g maxSteps "start g" s 0 "[]" "[s]" w]
    by (simp add: R)
  have at_end: "(\<exists>s'. result ?R = Inr s') \<longleftrightarrow> stopped_at ?R = END"
    using engine_loop_outcome [of g maxSteps "start g" s 0 "[]" "[s]" w]
    by (simp add: R)
  have limit: "result ?R = Inl ExecutionLimitExceeded
      \<Longrightarrow> steps ?R = maxSteps \<and> length (executed ?R) = maxSteps"
    using engine_loop_limit [of g maxSteps "start g" s 0 "[]" "[s]" w]
    by (simp add: R)
  have other: "\<And>e. result ?R = Inl e \<Longrightarrow> e \<noteq> ExecutionLimitExceeded \<Longrightarrow> steps ?R < maxSteps"
    using engine_loop_other_error [of g maxSteps "start g" s 0 "[]" "[s]" w]
    by (simp add: R)
  have failure: "result ?R = Inl CollaboratorFailure \<Longrightarrow> \<not> never_fails g"
    using engine_loop_collaborator_failure [of g maxSteps "start g" s 0 "[]" "[s]" w]
    by (simp add: R)
  have outcome: "(\<exists>s'. result ?R = Inr s') \<and> stopped_at ?R = END
       \<or> result ?R = Inl ExecutionLimitExceeded \<and> stopped_at ?R \<noteq> END
          \<and> steps ?R = maxSteps \<and> length (executed ?R) = maxSteps
       \<or> result ?R = Inl RoutingError \<and> stopped_at ?R \<noteq> END \<and> steps ?R < maxSteps
       \<or> result ?R = Inl ConfigurationError \<and> stopped_at ?R \<noteq> END \<and> steps ?R < maxSteps
       \<or> result ?R = Inl CollaboratorFailure \<and> stopped_at ?R \<noteq> END
          \<and> steps ?R < maxSteps \<and> \<not> never_fails g"
  proof (cases "result ?R")
    case (Inr s')
    with at_end show ?thesis by simp
  next
    case (Inl e)
    with at_end have ne: "stopped_at ?R \<noteq> END" by simp
    show ?thesis
    proof (cases e)
      case ConfigurationError
      with Inl ne other [of e] show ?thesis by simp
    next
      case RoutingError
      with Inl ne other [of e] show ?thesis by simp
    next
      case ExecutionLimitExceeded
      with Inl ne limit show ?thesis by simp
    next
      case CollaboratorFailure
      with Inl ne other [of e] failure show ?thesis by simp
    qed
  qed
  have clean: "never_fails g
        \<longrightarrow> (\<exists>s'. result ?R = Inr s') \<or> result ?R = Inl ExecutionLimitExceeded
          \<or> result ?R = Inl RoutingError \<or> result ?R = Inl ConfigurationError"
    using outcome by blast
  have loop: "always_routes_back g \<longrightarrow> result ?R = Inl ExecutionLimitExceeded
      \<and> steps ?R = maxSteps \<and> executed ?R = replicate maxSteps (start g)"
  proof
    assume "always_routes_back g"
    then obtain process router where h: "start g \<noteq> END"
        "map_of (static_edges g) (start g) = None"
        "map_of (node_registry g) (start g) = Some process"
        "map_of (conditional_edges g) (start g) = Some router"
        "\<forall>s w. fst (process s w) \<noteq> None" "\<forall>s w. fst (router s w) = Some (start g)"
      unfolding always_routes_back_def by blast
    from self_loop_run [OF h, of maxSteps s 0 "[]" "[s]" w]
    show "result ?R = Inl ExecutionLimitExceeded
      \<and> steps ?R = maxSteps \<and> executed ?R = replicate maxSteps (start g)"
      by (simp add: R)
  qed
  have cycle: "cycles_within g A \<longrightarrow> result ?R = Inl ExecutionLimitExceeded
      \<and> steps ?R = maxSteps \<and> length (executed ?R) = maxSteps \<and> set (executed ?R) \<subseteq> A"
  proof
    assume c: "cycles_within g A"
    then have st: "start g \<in> A" by (simp add: cycles_within_def)
    from c have cl: "\<forall>c \<in> A. c \<noteq> END
            \<and> (\<exists>process. map_of (node_registry g) c = Some process
                  \<and> (\<forall>s w. fst (process s w) \<noteq> None))
            \<and> (\<forall>s w. \<exists>t \<in> A. fst (resolve g c s w) = Inr t)"
      by (simp add: cycles_within_def)
    from engine_loop_cycles [OF cl st, of maxSteps s 0 "[]" "[s]" w]
    obtain xs where "result ?R = Inl ExecutionLimitExceeded" "steps ?R = maxSteps"
        "executed ?R = xs" "length xs = maxSteps" "set xs \<subseteq> A"
      unfolding R by (elim conjE exE) simp
    then show "result ?R = Inl ExecutionLimitExceeded
      \<and> steps ?R = maxSteps \<and> length (executed ?R) = maxSteps \<and> set (executed ?R) \<subseteq> A"
      by simp
  qed
  have sup: "\<forall>supervisor researcher writer reviewer.
         create_supervisor_swarm supervisor researcher writer reviewer = Inr g
         \<and> (\<forall>s w. fst (supervisor_router supervisor s w) = Some ''researcher'')
         \<and> (\<forall>s w. fst (ResearchAgent_process researcher s w) \<noteq> None)
        \<longrightarrow> result ?R = Inl ExecutionLimitExceeded \<and> steps ?R = maxSteps
          \<and> executed ?R
              = map (\<lambda>k. if even k then ''supervisor'' else ''researcher'') [0..<maxSteps]"
  proof (intro allI impI, elim conjE)
    fix supervisor researcher writer reviewer :: "'a agent"
    assume c: "create_supervisor_swarm supervisor researcher writer reviewer = Inr g"
      and a: "\<forall>s w. fst (supervisor_router supervisor s w) = Some ''researcher''"
      and n: "\<forall>s w. fst (ResearchAgent_process researcher s w) \<noteq> None"
    note f = supervisor_cycle [OF c a]
    have ne: "''supervisor'' \<noteq> END" "''researcher'' \<noteq> END"
      by (simp_all add: END_def)
    have cw: "cycles_within g {''supervisor'', ''researcher''}"
      using c a n by (rule supervisor_cycles_within)
    then have cl: "\<forall>c \<in> {''supervisor'', ''researcher''}. c \<noteq> END
            \<and> (\<exists>process. map_of (node_registry g) c = Some process
                  \<and> (\<forall>s w. fst (process s w) \<noteq> None))
            \<and> (\<forall>s w. \<exists>t \<in> {''supervisor'', ''researcher''}. fst (resolve g c s w) = Inr t)"
      by (simp add: cycles_within_def)
    have st: "start g \<in> {''supervisor'', ''researcher''}"
      by (simp add: f(1))
    from engine_loop_cycles [OF cl st, of maxSteps s 0 "[]" "[s]" w]
    have le: "result ?R = Inl ExecutionLimitExceeded \<and> steps ?R = maxSteps"
      unfolding R by simp
    from engine_loop_two_cycle [OF ne f(2) f(3) supervisor_node_never_fails n f(4) f(5),
        of maxSteps s 0 "[]" "[s]" w]
    have "executed ?R
        = map (\<lambda>k. if even k then ''supervisor'' else ''researcher'') [0..<maxSteps]"
      unfolding R f(1) by simp
    with le show "result ?R = Inl ExecutionLimitExceeded \<and> steps ?R = maxSteps
          \<and> executed ?R
              = map (\<lambda>k. if even k then ''supervisor'' else ''researcher'') [0..<maxSteps]"
      by simp
  qed
  from bound outcome clean loop cycle sup show ?thesis
    by (intro conjI) (simp_all only:)
qed

theorem invoke_terminates_bounded_witness:
  "never_fails (projr researching_supervisor)
   \<and> cycles_within (projr researching_supervisor) {''supervisor'', ''researcher''}
   \<and> create_supervisor_swarm (constant_agent ''researcher'') (constant_agent ''notes'')
        (constant_agent ''text'') (constant_agent ''review'')
       = Inr (projr researching_supervisor)
   \<and> (\<forall>s w. fst (supervisor_router (constant_agent ''researcher'') s (w::unit))
                = Some ''researcher'')
   \<and> (\<forall>s w. fst (ResearchAgent_process (constant_agent ''notes'') s (w::unit)) \<noteq> None)
   \<and> result (invoke (projr researching_supervisor) task_state 4 ())
        = Inl ExecutionLimitExceeded
   \<and> steps (invoke (projr researching_supervisor) task_state 4 ()) = 4
   \<and> executed (invoke (projr researching_supervisor) task_state 4 ())
        = [''supervisor'', ''researcher'', ''supervisor'', ''researcher'']
   \<and> always_routes_back (loop_graph :: unit graph)
   \<and> result (invoke (loop_graph :: unit graph) task_state 4 ()) = Inl ExecutionLimitExceeded
   \<and> steps (invoke (loop_graph :: unit graph) task_state 4 ()) = 4
   \<and> executed (invoke (loop_graph :: unit graph) task_state 4 ()) = replicate 4 ''a''"
proof -
  let ?g = "projr researching_supervisor"
  have c: "create_supervisor_swarm (constant_agent ''researcher'') (constant_agent ''notes'')
        (constant_agent ''text'') (constant_agent ''review'') = Inr ?g"
    by (simp add: researching_supervisor_def create_supervisor_swarm_compiles)
  have norm: "lower (strip ''researcher'') = ''researcher''"
    by code_simp
  have r: "\<forall>s w. fst (supervisor_router (constant_agent ''researcher'') s (w::unit))
                = Some ''researcher''"
    by (simp add: supervisor_router_def SupervisorAgent_route_def constant_agent_def
        constant_llm_def norm)
  have n: "\<forall>s w. fst (ResearchAgent_process (constant_agent ''notes'') s (w::unit)) \<noteq> None"
    by (simp add: ResearchAgent_process_def constant_agent_def constant_llm_def)
  have nf: "never_fails ?g"
    by (simp add: researching_supervisor_def create_supervisor_swarm_compiles never_fails_def
        ResearchAgent_process_def WriterAgent_process_def ReviewerAgent_process_def
        supervisor_node_def supervisor_router_def SupervisorAgent_route_def
        constant_agent_def constant_llm_def Let_def)
  have cw: "cycles_within ?g {''supervisor'', ''researcher''}"
    using c r n by (rule supervisor_cycles_within)
  have alt: "map (\<lambda>k. if even k then ''supervisor'' else ''researcher'') [0..<4]
      = [''supervisor'', ''researcher'', ''supervisor'', ''researcher'']"
    by (simp add: upt_rec)
  have a: "always_routes_back (loop_graph :: unit graph)"
    by (simp add: always_routes_back_def loop_graph_def idle_node_def const_router_def END_def)
  have st: "start (loop_graph :: unit graph) = ''a''"
    by (simp add: loop_graph_def)
  from invoke_terminates_bounded [of ?g task_state 4 "()" "{''supervisor'', ''researcher''}"]
    c r n
  have "result (invoke ?g task_state 4 ()) = Inl ExecutionLimitExceeded
      \<and> steps (invoke ?g task_state 4 ()) = 4
      \<and> executed (invoke ?g task_state 4 ())
          = map (\<lambda>k. if even k then ''supervisor'' else ''researcher'') [0..<4]"
    by blast
  moreover from invoke_terminates_bounded [of "loop_graph :: unit graph" task_state 4 "()"] a st
  have "result (invoke (loop_graph :: unit graph) task_state 4 ()) = Inl ExecutionLimitExceeded
      \<and> steps (invoke (loop_graph :: unit graph) task_state 4 ()) = 4
      \<and> executed (invoke (loop_graph :: unit graph) task_state 4 ()) = replicate 4 ''a''"
    by simp
  ultimately show ?thesis
    using nf cw c r n a by (simp only: alt) simp
qed

section \<open>Append-only messages\<close>

lemma merge_prefix: "prefix (messages s) (messages (merge s u))"
  by (simp add: merge_def)

lemma successively_snoc:
  "xs \<noteq> [] \<Longrightarrow> successively P (xs @ [y]) = (successively P xs \<and> P (last xs) y)"
  by (simp add: successively_append_iff)

lemma successively_nth:
  "successively P xs \<Longrightarrow> Suc k < length xs \<Longrightarrow> P (xs ! k) (xs ! Suc k)"
proof (induction P xs arbitrary: k rule: successively.induct)
  case (3 P x y xs)
  then show ?case by (cases k) auto
qed simp_all

lemma successively_hd_last:
  "successively (\<lambda>a b. prefix (messages a) (messages b)) xs \<Longrightarrow> xs \<noteq> []
     \<Longrightarrow> prefix (messages (hd xs)) (messages (last xs))"
proof (induction xs rule: induct_list012)
  case (3 x y zs)
  then show ?case by (auto intro: prefix_order.trans)
qed simp_all

lemma engine_loop_history:
  assumes "hist \<noteq> []" and "last hist = s"
    and "successively (\<lambda>a b. prefix (messages a) (messages b)) hist"
  shows "history (engine_loop g r c s n ex hist w) \<noteq> []
    \<and> hd (history (engine_loop g r c s n ex hist w)) = hd hist
    \<and> successively (\<lambda>a b. prefix (messages a) (messages b))
        (history (engine_loop g r c s n ex hist w))
    \<and> (\<forall>s'. result (engine_loop g r c s n ex hist w) = Inr s'
          \<longrightarrow> s' = last (history (engine_loop g r c s n ex hist w)))"
  using assms
proof (induction r arbitrary: c s n ex hist w)
  case 0
  then show ?case by simp
next
  case (Suc r)
  have ih: "history (engine_loop g r c' (merge s u) (Suc n) (ex @ [c]) (hist @ [merge s u]) w')
        \<noteq> []
    \<and> hd (history (engine_loop g r c' (merge s u) (Suc n) (ex @ [c]) (hist @ [merge s u]) w'))
        = hd hist
    \<and> successively (\<lambda>a b. prefix (messages a) (messages b))
        (history (engine_loop g r c' (merge s u) (Suc n) (ex @ [c]) (hist @ [merge s u]) w'))
    \<and> (\<forall>s'. result (engine_loop g r c' (merge s u) (Suc n) (ex @ [c])
                 (hist @ [merge s u]) w') = Inr s'
          \<longrightarrow> s' = last (history (engine_loop g r c' (merge s u) (Suc n) (ex @ [c])
                 (hist @ [merge s u]) w')))" for c' u w'
  proof -
    have "successively (\<lambda>a b. prefix (messages a) (messages b)) (hist @ [merge s u])"
      using Suc.prems by (simp add: successively_snoc merge_prefix)
    with Suc.IH [of "hist @ [merge s u]" "merge s u" c' "Suc n" "ex @ [c]" w'] Suc.prems
    show ?thesis by simp
  qed
  show ?case
    using ih Suc.prems
    by (simp add: successively_snoc merge_prefix split: option.split prod.split sum.split)
qed

text \<open>
  C2.  In every run of every graph, so in every run of the two graphs, the States of the
  run start with the initial State, and the Message sequence of each State is a prefix of
  that of the next State, so it never gets shorter; when the run ends at \<open>END\<close>, the
  final State is the last of them and the initial Message sequence is a prefix of the
  final one.  The supervisor node's update is the State's whole Message sequence, and
  merging it keeps the old sequence as a prefix.
\<close>

theorem messages_append_only:
  "history (invoke g s0 maxSteps w) \<noteq> []
   \<and> hd (history (invoke g s0 maxSteps w)) = s0
   \<and> (\<forall>k. Suc k < length (history (invoke g s0 maxSteps w))
        \<longrightarrow> prefix (messages (history (invoke g s0 maxSteps w) ! k))
                   (messages (history (invoke g s0 maxSteps w) ! Suc k))
          \<and> length (messages (history (invoke g s0 maxSteps w) ! k))
              \<le> length (messages (history (invoke g s0 maxSteps w) ! Suc k)))
   \<and> (\<forall>s'. result (invoke g s0 maxSteps w) = Inr s'
        \<longrightarrow> s' = last (history (invoke g s0 maxSteps w))
          \<and> prefix (messages s0) (messages s')
          \<and> length (messages s0) \<le> length (messages s'))
   \<and> (\<forall>u w'. supervisor_node s0 w = (Some u, w')
        \<longrightarrow> u_messages u = Some (messages s0)
          \<and> messages (merge s0 u) = messages s0 @ messages s0)"
proof -
  let ?H = "history (invoke g s0 maxSteps w)"
  have h: "?H \<noteq> [] \<and> hd ?H = s0
      \<and> successively (\<lambda>a b. prefix (messages a) (messages b)) ?H
      \<and> (\<forall>s'. result (invoke g s0 maxSteps w) = Inr s' \<longrightarrow> s' = last ?H)"
    using engine_loop_history [of "[s0]" s0 g maxSteps "start g" 0 "[]" w]
    by (simp add: invoke_def)
  have step: "\<forall>k. Suc k < length ?H
      \<longrightarrow> prefix (messages (?H ! k)) (messages (?H ! Suc k))
        \<and> length (messages (?H ! k)) \<le> length (messages (?H ! Suc k))"
  proof (intro allI impI)
    fix k
    assume "Suc k < length ?H"
    with h have "prefix (messages (?H ! k)) (messages (?H ! Suc k))"
      using successively_nth [of "\<lambda>a b. prefix (messages a) (messages b)" ?H k] by simp
    then show "prefix (messages (?H ! k)) (messages (?H ! Suc k))
        \<and> length (messages (?H ! k)) \<le> length (messages (?H ! Suc k))"
      by (simp add: prefix_length_le)
  qed
  have whole: "prefix (messages s0) (messages (last ?H))"
    using h successively_hd_last [of ?H] by auto
  have final: "\<forall>s'. result (invoke g s0 maxSteps w) = Inr s'
      \<longrightarrow> s' = last ?H \<and> prefix (messages s0) (messages s')
        \<and> length (messages s0) \<le> length (messages s')"
    using h whole by (auto simp add: prefix_length_le)
  have pass: "\<forall>u w'. supervisor_node s0 w = (Some u, w')
      \<longrightarrow> u_messages u = Some (messages s0)
        \<and> messages (merge s0 u) = messages s0 @ messages s0"
    by (auto simp add: supervisor_node_def merge_def)
  from h step final pass show ?thesis by blast
qed

theorem messages_append_only_witness:
  "Suc 2 < length (history (invoke (projr (create_supervisor_swarm scripted_agent
        scripted_agent scripted_agent scripted_agent)) task_state 5
        [''researcher'', ''notes'', ''FINISH'']))
   \<and> map (\<lambda>s. length (messages s)) (history (invoke (projr (create_supervisor_swarm
        scripted_agent scripted_agent scripted_agent scripted_agent)) task_state 5
        [''researcher'', ''notes'', ''FINISH''])) = [1, 2, 3, 6]
   \<and> prefix (messages (history (invoke (projr (create_supervisor_swarm scripted_agent
        scripted_agent scripted_agent scripted_agent)) task_state 5
        [''researcher'', ''notes'', ''FINISH'']) ! 2))
       (messages (history (invoke (projr (create_supervisor_swarm scripted_agent
        scripted_agent scripted_agent scripted_agent)) task_state 5
        [''researcher'', ''notes'', ''FINISH'']) ! Suc 2))"
proof -
  let ?H = "history (invoke (projr (create_supervisor_swarm scripted_agent
        scripted_agent scripted_agent scripted_agent)) task_state 5
        [''researcher'', ''notes'', ''FINISH''])"
  have lens: "map (\<lambda>s. length (messages s)) ?H = [1, 2, 3, 6]"
    by code_simp
  then have "length (map (\<lambda>s. length (messages s)) ?H) = 4"
    by simp
  then have len: "Suc 2 < length ?H"
    by simp
  from messages_append_only [of "projr (create_supervisor_swarm scripted_agent
        scripted_agent scripted_agent scripted_agent)" task_state 5
        "[''researcher'', ''notes'', ''FINISH'']"] len lens
  show ?thesis by blast
qed

section \<open>Determinism\<close>

lemma resolve_state_only:
  assumes "list_all state_only (map snd (conditional_edges g))"
  shows "resolve g c s w = (fst (resolve g c s w'), w)"
proof (cases "map_of (static_edges g) c")
  case (Some t)
  then show ?thesis by (simp add: resolve_def)
next
  case None
  show ?thesis
  proof (cases "map_of (conditional_edges g) c")
    case None
    with \<open>map_of (static_edges g) c = None\<close> show ?thesis by (simp add: resolve_def)
  next
    case (Some router)
    then have "state_only router"
      using map_of_list_all [OF assms Some] by simp
    then have "router s w = (fst (router s w'), w)" "router s w' = (fst (router s w'), w')"
      unfolding state_only_def by auto
    then show ?thesis
      using \<open>map_of (static_edges g) c = None\<close> Some
      by (cases "fst (router s w')") (simp_all add: resolve_def)
  qed
qed

lemma engine_loop_state_only:
  assumes "list_all state_only (map snd (node_registry g))"
    and "list_all state_only (map snd (conditional_edges g))"
  shows "result (engine_loop g r c s n ex hist w1) = result (engine_loop g r c s n ex hist w2)
    \<and> steps (engine_loop g r c s n ex hist w1) = steps (engine_loop g r c s n ex hist w2)
    \<and> executed (engine_loop g r c s n ex hist w1)
        = executed (engine_loop g r c s n ex hist w2)
    \<and> history (engine_loop g r c s n ex hist w1)
        = history (engine_loop g r c s n ex hist w2)"
proof (induction r arbitrary: c s n ex hist w1 w2)
  case 0
  show ?case by simp
next
  case (Suc r)
  show ?case
  proof (cases "c = END")
    case True
    then show ?thesis by simp
  next
    case False
    show ?thesis
    proof (cases "map_of (node_registry g) c")
      case None
      with False show ?thesis by simp
    next
      case (Some p)
      then have "state_only p"
        using map_of_list_all [OF assms(1) Some] by simp
      then have p: "p s w1 = (fst (p s w1), w1)" "p s w2 = (fst (p s w1), w2)"
        unfolding state_only_def by auto
      show ?thesis
      proof (cases "fst (p s w1)")
        case None
        with False Some p show ?thesis by simp
      next
        case (Some u)
        have rs: "resolve g c (merge s u) w1 = (fst (resolve g c (merge s u) w1), w1)"
            "resolve g c (merge s u) w2 = (fst (resolve g c (merge s u) w1), w2)"
          using resolve_state_only [OF assms(2)] by auto
        show ?thesis
        proof (cases "fst (resolve g c (merge s u) w1)")
          case (Inl e)
          with False \<open>map_of (node_registry g) c = Some p\<close> p Some rs
          show ?thesis by simp
        next
          case (Inr nxt)
          with False \<open>map_of (node_registry g) c = Some p\<close> p Some rs
          have "engine_loop g (Suc r) c s n ex hist w1
                = engine_loop g r nxt (merge s u) (Suc n) (ex @ [c]) (hist @ [merge s u]) w1"
            "engine_loop g (Suc r) c s n ex hist w2
                = engine_loop g r nxt (merge s u) (Suc n) (ex @ [c]) (hist @ [merge s u]) w2"
            by simp_all
          with Suc [of nxt "merge s u" "Suc n" "ex @ [c]" "hist @ [merge s u]" w1 w2]
          show ?thesis by simp
        qed
      qed
    qed
  qed
qed

lemma state_only_route_next_router: "state_only route_next_router"
  by (simp add: state_only_def route_next_router_def)

lemma state_only_fixed_node: "state_only (fixed_node u)"
  by (simp add: state_only_def fixed_node_def)

lemma state_only_idle_node: "state_only idle_node"
  by (simp add: state_only_def idle_node_def)

text \<open>
  C8, as the claim states it, fails: the routers reading the State only is not enough
  when a node asks the collaborator.  In a handoff graph whose triage node calls the
  language model as the specialists of the source do, every router is \<open>route_next\<close>,
  yet two invocations with the same initial State end in different States when the
  collaborator answers differently.
\<close>

theorem invoke_determinism_counterexample:
  "list_all state_only (map snd (conditional_edges (projr asking_handoff)))
   \<and> result (invoke (projr asking_handoff) task_state 5 [''a''])
       \<noteq> result (invoke (projr asking_handoff) task_state 5 [''b''])"
proof -
  have "list_all state_only (map snd (conditional_edges (projr asking_handoff)))"
    by (simp add: asking_handoff_def create_handoff_swarm_compiles
        state_only_route_next_router)
  moreover have "result (invoke (projr asking_handoff) task_state 5 [''a''])
       \<noteq> result (invoke (projr asking_handoff) task_state 5 [''b''])"
    by code_simp
  ultimately show ?thesis by simp
qed

text \<open>
  C8, amended.  In every graph in which every router and every node's processing reads
  the State only, two invocations with the same initial State and \<open>maxSteps\<close>, in
  whatever worlds, have the same result (the same final State or the same error), the same
  step count, and went through the same nodes and the same States.
\<close>

theorem invoke_deterministic:
  assumes "list_all state_only (map snd (node_registry g))"
    and "list_all state_only (map snd (conditional_edges g))"
  shows "result (invoke g s maxSteps w1) = result (invoke g s maxSteps w2)
    \<and> steps (invoke g s maxSteps w1) = steps (invoke g s maxSteps w2)
    \<and> executed (invoke g s maxSteps w1) = executed (invoke g s maxSteps w2)
    \<and> history (invoke g s maxSteps w1) = history (invoke g s maxSteps w2)"
  using engine_loop_state_only [OF assms, of maxSteps "start g" s 0 "[]" "[s]" w1 w2]
  by (simp add: invoke_def)

theorem invoke_deterministic_witness:
  "list_all state_only (map snd (node_registry (projr scenario_a)))
   \<and> list_all state_only (map snd (conditional_edges (projr scenario_a)))
   \<and> result (invoke (projr scenario_a) task_state 5 [''a''])
       = result (invoke (projr scenario_a) task_state 5 [''b''])
   \<and> steps (invoke (projr scenario_a) task_state 5 [''a''])
       = steps (invoke (projr scenario_a) task_state 5 [''b''])
   \<and> steps (invoke (projr scenario_a) task_state 5 [''a'']) = 2"
proof -
  have n: "list_all state_only (map snd (node_registry (projr scenario_a)))"
    by (simp add: scenario_a_def create_handoff_swarm_compiles state_only_fixed_node
        state_only_idle_node)
  have r: "list_all state_only (map snd (conditional_edges (projr scenario_a)))"
    by (simp add: scenario_a_def create_handoff_swarm_compiles state_only_route_next_router)
  have two: "steps (invoke (projr scenario_a) task_state 5 [''a'']) = 2"
    by code_simp
  from invoke_deterministic [OF n r, of task_state 5 "[''a'']" "[''b'']"] n r two
  show ?thesis by simp
qed

section \<open>Routing targets of the two graphs\<close>

lemma supervisor_router_range:
  "supervisor_router self s w = (Some t, w')
     \<Longrightarrow> t \<in> {''researcher'', ''writer'', ''reviewer'', END}"
  by (auto simp add: supervisor_router_def SupervisorAgent_route_def Let_def
      split: prod.splits option.splits if_splits)

lemma resolve_routing_error:
  assumes "resolve g c s w = (Inl RoutingError, w')"
  shows "(\<exists>t. map_of (static_edges g) c = Some t
            \<and> t \<notin> set (map fst (node_registry g)) \<and> t \<noteq> END)
       \<or> (\<exists>router t. map_of (conditional_edges g) c = Some router
            \<and> router s w = (Some t, w')
            \<and> t \<notin> set (map fst (node_registry g)) \<and> t \<noteq> END)"
  using assms
  by (auto simp add: resolve_def split: option.splits prod.splits sum.splits if_splits)

lemma resolve_route:
  assumes "resolve g c s w = (Inr t, w')"
  shows "map_of (static_edges g) c = Some t
       \<or> (\<exists>router. map_of (conditional_edges g) c = Some router
            \<and> router s w = (Some t, w'))"
  using assms
  by (auto simp add: resolve_def split: option.splits prod.splits sum.splits if_splits)

lemma engine_loop_no_routing_error:
  assumes "\<And>c s w. fst (resolve g c s w) \<noteq> Inl RoutingError"
  shows "result (engine_loop g r c s n ex hist w) \<noteq> Inl RoutingError"
proof (induction r arbitrary: c s n ex hist w)
  case 0
  show ?case by simp
next
  case (Suc r)
  show ?case
  proof (cases "c = END")
    case True
    then show ?thesis by simp
  next
    case False
    show ?thesis
    proof (cases "map_of (node_registry g) c")
      case None
      with False show ?thesis by simp
    next
      case (Some p)
      obtain ou w' where p: "p s w = (ou, w')" by (cases "p s w")
      show ?thesis
      proof (cases ou)
        case None
        with False Some p show ?thesis by simp
      next
        case (Some u)
        obtain res w'' where rs: "resolve g c (merge s u) w' = (res, w'')"
          by (cases "resolve g c (merge s u) w'")
        show ?thesis
        proof (cases res)
          case (Inl e)
          with assms [of c "merge s u" w'] rs have "e \<noteq> RoutingError" by simp
          with Inl False \<open>map_of (node_registry g) c = Some p\<close> p Some rs
          show ?thesis by simp
        next
          case (Inr t)
          with False \<open>map_of (node_registry g) c = Some p\<close> p Some rs
          have "engine_loop g (Suc r) c s n ex hist w
                = engine_loop g r t (merge s u) (Suc n) (ex @ [c]) (hist @ [merge s u]) w''"
            by simp
          with Suc [of t "merge s u" "Suc n" "ex @ [c]" "hist @ [merge s u]" w'']
          show ?thesis by simp
        qed
      qed
    qed
  qed
qed

lemma supervisor_resolve_no_routing_error:
  assumes "create_supervisor_swarm supervisor researcher writer reviewer = Inr g"
  shows "fst (resolve g c s w) \<noteq> Inl RoutingError"
proof
  assume a: "fst (resolve g c s w) = Inl RoutingError"
  from assms have g: "g = \<lparr>node_registry =
            [(''researcher'', ResearchAgent_process researcher),
             (''writer'', WriterAgent_process writer),
             (''reviewer'', ReviewerAgent_process reviewer),
             (''supervisor'', supervisor_node)],
          static_edges =
            [(START, ''supervisor''), (''researcher'', ''supervisor''),
             (''writer'', ''supervisor''), (''reviewer'', ''supervisor'')],
          conditional_edges = [(''supervisor'', supervisor_router supervisor)],
          start = ''supervisor''\<rparr>"
    by (simp add: create_supervisor_swarm_compiles)
  have names: "set (map fst (node_registry g))
      = {''researcher'', ''writer'', ''reviewer'', ''supervisor''}"
    by (simp add: g)
  have static: "t = ''supervisor''" if "map_of (static_edges g) c = Some t" for t
  proof -
    from map_of_SomeD [OF that] have "(c, t) \<in> set (static_edges g)" .
    then show ?thesis by (auto simp add: g)
  qed
  have cond: "router = supervisor_router supervisor"
    if "map_of (conditional_edges g) c = Some router" for router
  proof -
    from map_of_SomeD [OF that] have "(c, router) \<in> set (conditional_edges g)" .
    then show ?thesis by (simp add: g)
  qed
  obtain w' where "resolve g c s w = (Inl RoutingError, w')"
    using a by (cases "resolve g c s w") simp
  from resolve_routing_error [OF this] show False
  proof (elim disjE exE conjE)
    fix t
    assume "map_of (static_edges g) c = Some t" and "t \<notin> set (map fst (node_registry g))"
    with static [of t] names show False by simp
  next
    fix router t
    assume "map_of (conditional_edges g) c = Some router" and r: "router s w = (Some t, w')"
      and t: "t \<notin> set (map fst (node_registry g))" "t \<noteq> END"
    with cond [of router] have "supervisor_router supervisor s w = (Some t, w')" by simp
    from supervisor_router_range [OF this] t names show False by simp
  qed
qed

text \<open>
  C9.  Whatever the State and the collaborator's answer, a value that \<open>supervisor_router\<close>
  returns is researcher, writer, reviewer or \<open>END\<close>, and it returns one whenever the
  classifier's call answers; the three names are registered nodes of the supervisor
  graph, so no run of that graph ends with \<open>RoutingError\<close>.
\<close>

theorem supervisor_router_targets:
  assumes "create_supervisor_swarm supervisor researcher writer reviewer = Inr g"
  shows "(\<forall>t w'. supervisor_router supervisor s w = (Some t, w')
             \<longrightarrow> t \<in> {''researcher'', ''writer'', ''reviewer'', END})
    \<and> (\<forall>response w'.
          llm supervisor (Msg \<lparr>role = SystemMessage, content = system_prompt supervisor\<rparr>
                            # map Msg (messages s)) w = (Some response, w')
          \<longrightarrow> (\<exists>t. supervisor_router supervisor s w = (Some t, w')))
    \<and> set [''researcher'', ''writer'', ''reviewer''] \<subseteq> set (map fst (node_registry g))
    \<and> result (invoke g s0 maxSteps w0) \<noteq> Inl RoutingError"
proof -
  have range: "\<forall>t w'. supervisor_router supervisor s w = (Some t, w')
      \<longrightarrow> t \<in> {''researcher'', ''writer'', ''reviewer'', END}"
  proof (intro allI impI)
    fix t w'
    assume "supervisor_router supervisor s w = (Some t, w')"
    then show "t \<in> {''researcher'', ''writer'', ''reviewer'', END}"
      by (rule supervisor_router_range)
  qed
  have answers: "\<forall>response w'.
          llm supervisor (Msg \<lparr>role = SystemMessage, content = system_prompt supervisor\<rparr>
                            # map Msg (messages s)) w = (Some response, w')
          \<longrightarrow> (\<exists>t. supervisor_router supervisor s w = (Some t, w'))"
    by (simp add: supervisor_router_def SupervisorAgent_route_def Let_def)
  from assms have "g = \<lparr>node_registry =
            [(''researcher'', ResearchAgent_process researcher),
             (''writer'', WriterAgent_process writer),
             (''reviewer'', ReviewerAgent_process reviewer),
             (''supervisor'', supervisor_node)],
          static_edges =
            [(START, ''supervisor''), (''researcher'', ''supervisor''),
             (''writer'', ''supervisor''), (''reviewer'', ''supervisor'')],
          conditional_edges = [(''supervisor'', supervisor_router supervisor)],
          start = ''supervisor''\<rparr>"
    by (simp add: create_supervisor_swarm_compiles)
  then have names: "map fst (node_registry g)
      = [''researcher'', ''writer'', ''reviewer'', ''supervisor'']"
    by simp
  have reg: "set [''researcher'', ''writer'', ''reviewer''] \<subseteq> set (map fst (node_registry g))"
    unfolding names by simp
  have "result (engine_loop g maxSteps (start g) s0 0 [] [s0] w0) \<noteq> Inl RoutingError"
    by (rule engine_loop_no_routing_error) (rule supervisor_resolve_no_routing_error [OF assms])
  then have never: "result (invoke g s0 maxSteps w0) \<noteq> Inl RoutingError"
    by (simp add: invoke_def)
  from range answers reg never show ?thesis by (intro conjI)
qed

theorem supervisor_router_targets_witness:
  "create_supervisor_swarm scripted_agent scripted_agent scripted_agent scripted_agent
     = Inr (projr scripted_supervisor)
   \<and> supervisor_router scripted_agent task_state [''Reviewer, please'', ''fine'', ''FINISH'']
       = (Some ''reviewer'', [''fine'', ''FINISH''])
   \<and> ''reviewer'' \<in> {''researcher'', ''writer'', ''reviewer'', END}
   \<and> ''reviewer'' \<in> set (map fst (node_registry (projr scripted_supervisor)))
   \<and> result (invoke (projr scripted_supervisor) task_state 5
         [''Reviewer, please'', ''fine'', ''FINISH'']) \<noteq> Inl RoutingError"
proof -
  have c: "create_supervisor_swarm scripted_agent scripted_agent scripted_agent scripted_agent
     = Inr (projr scripted_supervisor)"
    by (simp add: scripted_supervisor_def create_supervisor_swarm_compiles)
  have r: "supervisor_router scripted_agent task_state [''Reviewer, please'', ''fine'', ''FINISH'']
     = (Some ''reviewer'', [''fine'', ''FINISH''])"
    by code_simp
  note t = supervisor_router_targets [OF c, of task_state
      "[''Reviewer, please'', ''fine'', ''FINISH'']" task_state 5
      "[''Reviewer, please'', ''fine'', ''FINISH'']"]
  from t have "\<forall>t w'. supervisor_router scripted_agent task_state
        [''Reviewer, please'', ''fine'', ''FINISH''] = (Some t, w')
      \<longrightarrow> t \<in> {''researcher'', ''writer'', ''reviewer'', END}"
    by (rule conjunct1)
  with r have range: "''reviewer'' \<in> {''researcher'', ''writer'', ''reviewer'', END}"
    by blast
  from t have "set [''researcher'', ''writer'', ''reviewer'']
      \<subseteq> set (map fst (node_registry (projr scripted_supervisor)))"
    by (elim conjE)
  then have reg: "''reviewer'' \<in> set (map fst (node_registry (projr scripted_supervisor)))"
    by simp
  from t have never: "result (invoke (projr scripted_supervisor) task_state 5
         [''Reviewer, please'', ''fine'', ''FINISH'']) \<noteq> Inl RoutingError"
    by (elim conjE)
  from c r range reg never show ?thesis by (intro conjI)
qed

section \<open>The triage node of the handoff graph\<close>

lemma engine_loop_executed_within:
  assumes "\<And>c s w t w'. c \<in> A \<Longrightarrow> resolve g c s w = (Inr t, w') \<Longrightarrow> t \<in> A \<or> t = END"
    and "c \<in> A \<or> c = END"
  shows "\<exists>xs. executed (engine_loop g r c s n ex hist w) = ex @ xs \<and> set xs \<subseteq> A"
  using assms(2)
proof (induction r arbitrary: c s n ex hist w)
  case 0
  show ?case by simp
next
  case (Suc r)
  show ?case
  proof (cases "c = END")
    case True
    then show ?thesis by simp
  next
    case False
    with Suc.prems have cA: "c \<in> A" by simp
    show ?thesis
    proof (cases "map_of (node_registry g) c")
      case None
      with False show ?thesis by simp
    next
      case (Some p)
      obtain ou w' where p: "p s w = (ou, w')" by (cases "p s w")
      show ?thesis
      proof (cases ou)
        case None
        with False Some p cA show ?thesis by simp
      next
        case (Some u)
        obtain res w'' where rs: "resolve g c (merge s u) w' = (res, w'')"
          by (cases "resolve g c (merge s u) w'")
        show ?thesis
        proof (cases res)
          case (Inl e)
          with False \<open>map_of (node_registry g) c = Some p\<close> p Some rs cA
          show ?thesis by simp
        next
          case (Inr t)
          with rs cA assms(1) have t: "t \<in> A \<or> t = END" by blast
          have unfold: "engine_loop g (Suc r) c s n ex hist w
                = engine_loop g r t (merge s u) (Suc n) (ex @ [c]) (hist @ [merge s u]) w''"
            using False \<open>map_of (node_registry g) c = Some p\<close> p Some rs Inr by simp
          from Suc.IH [OF t, of "merge s u" "Suc n" "ex @ [c]" "hist @ [merge s u]" w'']
          obtain xs where "executed (engine_loop g r t (merge s u) (Suc n) (ex @ [c])
              (hist @ [merge s u]) w'') = (ex @ [c]) @ xs" and "set xs \<subseteq> A"
            by blast
          with unfold cA have "executed (engine_loop g (Suc r) c s n ex hist w)
              = ex @ (c # xs) \<and> set (c # xs) \<subseteq> A"
            by simp
          then show ?thesis by blast
        qed
      qed
    qed
  qed
qed

lemma route_next_range:
  "route_next s \<in> {''technical'', ''creative'', ''data'', END}"
  by (auto simp add: route_next_def Let_def)

lemma handoff_resolve_target:
  assumes "create_handoff_swarm triage technical creative data = Inr g"
    and "resolve g c s w = (Inr t, w')" and "c \<noteq> START"
  shows "t \<in> {''technical'', ''creative'', ''data''} \<or> t = END"
proof -
  from assms(1) have g: "g = \<lparr>node_registry =
            [(''triage'', triage), (''technical'', technical),
             (''creative'', creative), (''data'', data)],
          static_edges = [(START, ''triage'')],
          conditional_edges =
            [(''triage'', route_next_router), (''technical'', route_next_router),
             (''creative'', route_next_router), (''data'', route_next_router)],
          start = ''triage''\<rparr>"
    by (simp add: create_handoff_swarm_compiles)
  have static: "map_of (static_edges g) c = None"
    using assms(3) by (simp add: g)
  have cond: "router = route_next_router"
    if "map_of (conditional_edges g) c = Some router" for router
  proof -
    from map_of_SomeD [OF that] have "(c, router) \<in> set (conditional_edges g)" .
    then show ?thesis by (auto simp add: g)
  qed
  from resolve_route [OF assms(2)] static
  obtain router where "map_of (conditional_edges g) c = Some router"
      and "router s w = (Some t, w')"
    by auto
  with cond [of router] have "t = route_next s"
    by (simp add: route_next_router_def)
  with route_next_range [of s] show ?thesis by auto
qed

lemma handoff_executed:
  assumes "create_handoff_swarm triage technical creative data = Inr g"
  shows "\<exists>xs. executed (engine_loop g (Suc r) ''triage'' s n [] hist w) = ''triage'' # xs
           \<and> ''triage'' \<notin> set xs"
proof -
  let ?A = "{''technical'', ''creative'', ''data''}"
  from assms have g: "g = \<lparr>node_registry =
            [(''triage'', triage), (''technical'', technical),
             (''creative'', creative), (''data'', data)],
          static_edges = [(START, ''triage'')],
          conditional_edges =
            [(''triage'', route_next_router), (''technical'', route_next_router),
             (''creative'', route_next_router), (''data'', route_next_router)],
          start = ''triage''\<rparr>"
    by (simp add: create_handoff_swarm_compiles)
  have closed: "t \<in> ?A \<or> t = END"
    if "c \<in> ?A" and "resolve g c s w = (Inr t, w')" for c s w t w'
  proof -
    from that(1) have "c \<noteq> START" by (auto simp add: START_def)
    with assms that(2) show ?thesis by (rule handoff_resolve_target)
  qed
  have ts: "''triage'' \<noteq> START" by (simp add: START_def)
  show ?thesis
  proof (cases rule: engine_loop_Suc_cases [of "''triage''" g r s n "[]" hist w])
    case at_end
    then have False by (simp add: END_def)
    then show ?thesis ..
  next
    case unregistered
    then have False by (simp add: g)
    then show ?thesis ..
  next
    case (node_failed p w')
    then show ?thesis by simp
  next
    case (no_target p u w' e w'')
    then show ?thesis by simp
  next
    case (step p u w' t w'')
    from assms step(4) ts have t: "t \<in> ?A \<or> t = END" by (rule handoff_resolve_target)
    have "\<exists>xs. executed (engine_loop g r t (merge s u) (Suc n) [''triage'']
        (hist @ [merge s u]) w'') = [''triage''] @ xs \<and> set xs \<subseteq> ?A"
    proof (rule engine_loop_executed_within)
      show "t \<in> ?A \<or> t = END" by (rule t)
    next
      fix c s w t w'
      assume "c \<in> ?A" and "resolve g c s w = (Inr t, w')"
      then show "t \<in> ?A \<or> t = END" by (rule closed)
    qed
    then obtain xs where "executed (engine_loop g r t (merge s u) (Suc n) [''triage'']
        (hist @ [merge s u]) w'') = [''triage''] @ xs" and "set xs \<subseteq> ?A"
      by (elim exE conjE)
    with step(5) have "executed (engine_loop g (Suc r) ''triage'' s n [] hist w)
        = ''triage'' # xs \<and> ''triage'' \<notin> set xs"
      by auto
    then show ?thesis by (rule exI)
  qed
qed

text \<open>
  C10, as the claim states it, fails for \<open>maxSteps = 0\<close>: the engine then raises
  \<open>ExecutionLimitExceeded\<close> before any node runs, so triage is not executed.
\<close>

theorem triage_once_counterexample:
  "executed (invoke (projr scenario_a) task_state 0 []) = []
   \<and> count_list (executed (invoke (projr scenario_a) task_state 0 [])) ''triage'' \<noteq> 1"
  by code_simp

text \<open>
  C10, amended.  In the handoff graph \<open>route_next\<close> never returns triage, the only
  static edge into triage is the one from \<open>START\<close>, and every conditional edge is
  \<open>route_next\<close>.  So in every run with \<open>maxSteps\<close> of at least 1 the triage node is
  executed exactly once, as the first node; with \<open>maxSteps = 0\<close> no node is executed.
\<close>

theorem triage_runs_once:
  assumes "create_handoff_swarm triage technical creative data = Inr g"
  shows "route_next s \<noteq> ''triage''
    \<and> (\<forall>e \<in> set (static_edges g). snd e = ''triage'' \<longrightarrow> fst e = START)
    \<and> (\<forall>e \<in> set (conditional_edges g). snd e = route_next_router)
    \<and> (maxSteps = 0 \<longrightarrow> executed (invoke g s0 maxSteps w) = [])
    \<and> (0 < maxSteps \<longrightarrow>
         hd (executed (invoke g s0 maxSteps w)) = ''triage''
         \<and> count_list (executed (invoke g s0 maxSteps w)) ''triage'' = 1
         \<and> ''triage'' \<notin> set (tl (executed (invoke g s0 maxSteps w))))"
proof -
  from assms have g: "g = \<lparr>node_registry =
            [(''triage'', triage), (''technical'', technical),
             (''creative'', creative), (''data'', data)],
          static_edges = [(START, ''triage'')],
          conditional_edges =
            [(''triage'', route_next_router), (''technical'', route_next_router),
             (''creative'', route_next_router), (''data'', route_next_router)],
          start = ''triage''\<rparr>"
    by (simp add: create_handoff_swarm_compiles)
  have never: "route_next s \<noteq> ''triage''"
    using route_next_range [of s] by (auto simp add: END_def)
  have static: "\<forall>e \<in> set (static_edges g). snd e = ''triage'' \<longrightarrow> fst e = START"
    by (simp add: g)
  have cond: "\<forall>e \<in> set (conditional_edges g). snd e = route_next_router"
    by (simp add: g)
  have zero: "maxSteps = 0 \<longrightarrow> executed (invoke g s0 maxSteps w) = []"
    by (simp add: invoke_def)
  have pos: "0 < maxSteps \<longrightarrow>
         hd (executed (invoke g s0 maxSteps w)) = ''triage''
         \<and> count_list (executed (invoke g s0 maxSteps w)) ''triage'' = 1
         \<and> ''triage'' \<notin> set (tl (executed (invoke g s0 maxSteps w)))"
  proof
    assume "0 < maxSteps"
    then obtain r where r: "maxSteps = Suc r" by (cases maxSteps) auto
    from handoff_executed [OF assms, of r s0 0 "[s0]" w]
    obtain xs where "executed (invoke g s0 maxSteps w) = ''triage'' # xs"
        and "''triage'' \<notin> set xs"
      unfolding invoke_def r by (auto simp add: g)
    then show "hd (executed (invoke g s0 maxSteps w)) = ''triage''
         \<and> count_list (executed (invoke g s0 maxSteps w)) ''triage'' = 1
         \<and> ''triage'' \<notin> set (tl (executed (invoke g s0 maxSteps w)))"
      by (simp add: count_list_0_iff)
  qed
  from never static cond zero pos show ?thesis by blast
qed

theorem triage_runs_once_witness:
  "create_handoff_swarm
       (fixed_node \<lparr>u_messages = Some [\<lparr>role = AIMessage, content = ''to creative''\<rparr>],
                    u_next_agent = Some ''creative'', u_task_complete = Some False\<rparr>)
       idle_node
       (fixed_node \<lparr>u_messages = Some [\<lparr>role = AIMessage, content = ''done''\<rparr>],
                    u_next_agent = None, u_task_complete = Some True\<rparr>)
       idle_node = Inr (projr scenario_a)
   \<and> (0::nat) < 5
   \<and> executed (invoke (projr scenario_a) task_state 5 []) = [''triage'', ''creative'']
   \<and> count_list (executed (invoke (projr scenario_a) task_state 5 [])) ''triage'' = 1"
proof -
  have c: "create_handoff_swarm
       (fixed_node \<lparr>u_messages = Some [\<lparr>role = AIMessage, content = ''to creative''\<rparr>],
                    u_next_agent = Some ''creative'', u_task_complete = Some False\<rparr>)
       idle_node
       (fixed_node \<lparr>u_messages = Some [\<lparr>role = AIMessage, content = ''done''\<rparr>],
                    u_next_agent = None, u_task_complete = Some True\<rparr>)
       idle_node = Inr (projr scenario_a)"
    by (simp add: scenario_a_def create_handoff_swarm_compiles)
  have e: "executed (invoke (projr scenario_a) task_state 5 []) = [''triage'', ''creative'']"
    by code_simp
  from triage_runs_once [OF c, of task_state 5 task_state "[]"] c e
  show ?thesis by simp
qed

section \<open>Scenario B of the supervisor graph\<close>









end
